theory Spec2Isabelle
  imports Main
begin

section \<open>bulk_fhir_fetch: the run orchestrator and its resilient fetch\<close>

text \<open>
  The embedded program is \<^verbatim>\<open>cmd/bulk_fhir_fetch/bulk_fhir_fetch.go\<close>: \<^verbatim>\<open>mainWrapper\<close>,
  \<^verbatim>\<open>getDataOrExit\<close>, \<^verbatim>\<open>getBulkFHIRClient\<close> and \<^verbatim>\<open>getTransactionTimeStore\<close>.
  Everything these functions call in the packages \<^verbatim>\<open>bulkfhir\<close>, \<^verbatim>\<open>bcda\<close> and
  \<^verbatim>\<open>processing\<close> is a collaborator whose code is not part of the file: each such call
  is an operation of an environment record that maps the state of the outside world to
  a result and a new state of the world. The functions of the file thread that world
  through their calls in program order, and log every call with its result in a trace.
  Logging through \<^verbatim>\<open>glog\<close> is left out; it has no influence on control flow.
\<close>

subsection \<open>Errors\<close>

text \<open>
  Go errors. \<open>New m\<close> is \<^verbatim>\<open>errors.New(m)\<close> (also an error of a collaborator with
  message \<open>m\<close>); \<open>Errorf p e\<close> is \<^verbatim>\<open>fmt.Errorf(p + "%v", e)\<close>, which keeps the text of
  \<open>e\<close> only; \<open>Wrapf p e\<close> is \<^verbatim>\<open>fmt.Errorf(p + "%w", e)\<close>, which wraps \<open>e\<close>.
  \<open>ErrorUnauthorized\<close> and \<open>ErrorRetryableHTTPStatus\<close> are the sentinels of package
  \<^verbatim>\<open>bulkfhir\<close>, \<open>ErrTooLong\<close> is \<^verbatim>\<open>bufio.ErrTooLong\<close>.
\<close>

datatype error =
    ErrorUnauthorized
  | ErrorRetryableHTTPStatus
  | ErrTooLong
  | New string
  | Errorf string error
  | Wrapf string error

text \<open>\<^verbatim>\<open>errors.Is\<close>: the target is compared with every error of the \<^verbatim>\<open>%w\<close> chain.\<close>

fun errorsIs :: "error \<Rightarrow> error \<Rightarrow> bool" where
  "errorsIs (Wrapf p e) target = (Wrapf p e = target \<or> errorsIs e target)"
| "errorsIs e target = (e = target)"

definition errInvalidSince :: error where
  "errInvalidSince = New ''invalid since timestamp''"

definition errMustRectifyForFHIRStore :: error where
  "errMustRectifyForFHIRStore = New ''for now, rectify must be enabled for FHIR store upload''"

definition errMustSpecifyGCSBucket :: error where
  "errMustSpecifyGCSBucket =
     New ''if fhir_store_enable_gcs_based_upload=true, fhir_store_gcs_based_upload_bucket must be set''"

subsection \<open>Constants\<close>

definition maxTokenSize :: nat where
  "maxTokenSize = 500 * 1024"

definition initialBufferSize :: nat where
  "initialBufferSize = 5 * 1024"

text \<open>The number of retries \<^verbatim>\<open>getDataOrExit\<close> allows (the literal 5 of its loop guard).\<close>

definition maxRetries :: nat where
  "maxRetries = 5"

subsection \<open>Configuration\<close>

record mainWrapperConfig =
  fhirStoreEndpoint :: string
  gcsEndpoint :: string
  clientID :: string
  clientSecret :: string
  outputPrefix :: string
  rectify :: bool
  enableFHIRStore :: bool
  maxFHIRStoreUploadWorkers :: int
  fhirStoreGCPProject :: string
  fhirStoreGCPLocation :: string
  fhirStoreGCPDatasetID :: string
  fhirStoreID :: string
  fhirStoreUploadErrorFileDir :: string
  fhirStoreEnableBatchUpload :: bool
  fhirStoreBatchUploadSize :: int
  fhirStoreEnableGCSBasedUpload :: bool
  fhirStoreGCSBasedUploadBucket :: string
  bcdaServerURL :: string
  useGeneralizedBulkImport :: bool
  baseServerURL :: string
  authURL :: string
  fhirAuthScopes :: "string list"
  since :: string
  sinceFile :: string
  noFailOnUploadErrors :: bool
  pendingJobURL :: string

subsection \<open>Data of the collaborators\<close>

text \<open>A point in time (\<^verbatim>\<open>time.Time\<close>), as a number.\<close>

type_synonym Time = int

text \<open>
  Modelled from the spec: \<^verbatim>\<open>bulkfhir.JobStatus\<close> and \<^verbatim>\<open>bulkfhir.MonitorResult\<close>, whose
  declarations are not in the file. The fields are the ones \<^verbatim>\<open>mainWrapper\<close> reads.
  \<open>ResultURLs\<close> is a Go map from resource type to a slice of URLs. It is held as the list
  of its entries in the order in which the \<^verbatim>\<open>range\<close> statement of this run yields them:
  Go leaves the iteration order of a map unspecified and varies it from one \<^verbatim>\<open>range\<close> to
  the next, so the same map is any list of its entries with the keys distinct.
\<close>

record JobStatus =
  IsComplete :: bool
  PercentComplete :: int
  ResultURLs :: "(string \<times> string list) list"
  TransactionTime :: Time

record MonitorResult =
  Status :: JobStatus
  Error :: "error option"

text \<open>
  The body of a download (\<^verbatim>\<open>io.ReadCloser\<close>): the bytes the reader delivers and the error
  it returns after them, \<open>None\<close> for \<^verbatim>\<open>io.EOF\<close>.
\<close>

record ReadCloser =
  content :: string
  readErr :: "error option"

text \<open>
  The three implementations of \<^verbatim>\<open>bulkfhir.TransactionTimeStore\<close>, by the arguments of
  their constructors.
\<close>

datatype TransactionTimeStore =
    InMemoryTransactionTimeStore string
  | GCSTransactionTimeStore string string
  | LocalFileTransactionTimeStore string

datatype Processor = BCDARectifyProcessor

datatype Sink = NDJSONSink string string | FHIRStoreSink

subsection \<open>The environment, the trace and the state of a run\<close>

text \<open>
  The operations of the collaborators. \<open>'w\<close> is the state of everything outside the
  program: the export server, the client and its session, the stores, the sinks and the
  pipeline. The objects the program holds (the client, the pipeline) live in the world;
  a transaction time store is named by its constructor. \<open>MonitorJobStatus\<close> returns the
  whole sequence of results the channel delivers before it is closed.
\<close>

record 'w env =
  bcda_NewClient :: "string \<Rightarrow> string \<Rightarrow> string \<Rightarrow> 'w \<Rightarrow> error option \<times> 'w"
  NewHTTPBasicOAuthAuthenticator ::
    "string \<Rightarrow> string \<Rightarrow> string \<Rightarrow> string list \<Rightarrow> 'w \<Rightarrow> error option \<times> 'w"
  bulkfhir_NewClient :: "string \<Rightarrow> 'w \<Rightarrow> error option \<times> 'w"
  Close :: "'w \<Rightarrow> error option \<times> 'w"
  NewInMemoryTransactionTimeStore :: "string \<Rightarrow> 'w \<Rightarrow> error option \<times> 'w"
  NewGCSTransactionTimeStore :: "string \<Rightarrow> string \<Rightarrow> 'w \<Rightarrow> error option \<times> 'w"
  Load :: "TransactionTimeStore \<Rightarrow> 'w \<Rightarrow> (error + Time) \<times> 'w"
  Store :: "TransactionTimeStore \<Rightarrow> Time \<Rightarrow> 'w \<Rightarrow> error option \<times> 'w"
  StartBulkDataExport :: "Time \<Rightarrow> 'w \<Rightarrow> (error + string) \<times> 'w"
  MonitorJobStatus :: "string \<Rightarrow> 'w \<Rightarrow> MonitorResult list \<times> 'w"
  NewNDJSONSink :: "string \<Rightarrow> string \<Rightarrow> 'w \<Rightarrow> error option \<times> 'w"
  NewFHIRStoreSink :: "mainWrapperConfig \<Rightarrow> 'w \<Rightarrow> error option \<times> 'w"
  NewPipeline :: "Processor list \<Rightarrow> Sink list \<Rightarrow> 'w \<Rightarrow> error option \<times> 'w"
  GetData :: "string \<Rightarrow> 'w \<Rightarrow> (error + ReadCloser) \<times> 'w"
  Authenticate :: "'w \<Rightarrow> error option \<times> 'w"
  Sleep :: "nat \<Rightarrow> 'w \<Rightarrow> unit \<times> 'w"
  Process :: "string \<Rightarrow> string \<Rightarrow> string \<Rightarrow> 'w \<Rightarrow> error option \<times> 'w"
  Finalize :: "'w \<Rightarrow> error option \<times> 'w"
  CloseReader :: "ReadCloser \<Rightarrow> 'w \<Rightarrow> unit \<times> 'w"

text \<open>One event for every call of a collaborator, with its arguments and its result.\<close>

datatype event =
    EvNewAuthenticator "error option"
  | EvNewClient "error option"
  | EvClose "error option"
  | EvNewStore TransactionTimeStore "error option"
  | EvLoad "error + Time"
  | EvStartBulkDataExport Time "error + string"
  | EvMonitorJobStatus string "MonitorResult list"
  | EvSet Time
  | EvNewNDJSONSink string string "error option"
  | EvNewFHIRStoreSink "error option"
  | EvNewPipeline "Processor list" "Sink list" "error option"
  | EvGetData string "error + ReadCloser"
  | EvSleep nat
  | EvAuthenticate "error option"
  | EvProcess string string string "error option"
  | EvErr string "error option"
  | EvFinalize "error option"
  | EvStore Time "error option"
  | EvCloseReader ReadCloser

datatype Deferred = DeferClose | DeferCloseReader ReadCloser

text \<open>
  The state of a run: the world, the trace so far, the calls registered with
  \<^verbatim>\<open>defer\<close> (the latest first), and the transaction time box.

  Modelled from the spec: \<^verbatim>\<open>bulkfhir.TransactionTime\<close>, whose code is not in the file, is
  "a single mutable watermark value with two states, unset and set"; \<open>None\<close> is unset.
  Only the program writes the field: the sink that is handed the box is taken to read it.
\<close>

record 'w state =
  world :: 'w
  trace :: "event list"
  deferred :: "Deferred list"
  transactionTime :: "Time option"

text \<open>A call of a collaborator: the world moves on and the event is logged.\<close>

definition call :: "('w \<Rightarrow> 'a \<times> 'w) \<Rightarrow> ('a \<Rightarrow> event) \<Rightarrow> 'w state \<Rightarrow> 'a \<times> 'w state" where
  "call f ev s =
     (case f (world s) of (r, w) \<Rightarrow> (r, s\<lparr>world := w, trace := trace s @ [ev r]\<rparr>))"

definition NewTransactionTime :: "'w state \<Rightarrow> 'w state" where
  "NewTransactionTime s = s\<lparr>transactionTime := None\<rparr>"

definition Set_TransactionTime :: "Time \<Rightarrow> 'w state \<Rightarrow> 'w state" where
  "Set_TransactionTime t s = s\<lparr>transactionTime := Some t, trace := trace s @ [EvSet t]\<rparr>"

definition defer_call :: "Deferred \<Rightarrow> 'w state \<Rightarrow> 'w state" where
  "defer_call d s = s\<lparr>deferred := d # deferred s\<rparr>"

subsection \<open>The line scanner\<close>

text \<open>
  \<^verbatim>\<open>bufio.Scanner\<close> of the Go standard library with its default split function
  \<^verbatim>\<open>ScanLines\<close>, over a reader that delivers \<open>input\<close> and then \<open>inputErr\<close>. A token is a
  line without its end-of-line marker (a line feed, with one carriage return before it
  dropped); a last line with no line feed is a token too, and an empty line is an empty
  token. The scanner gives up with \<open>ErrTooLong\<close> when its buffer, grown to the larger of
  its initial length and the maximum token size, is full and holds no line feed: that is
  when the pending line has at least that many bytes. After the last token \<^verbatim>\<open>Scan\<close>
  returns false and \<^verbatim>\<open>Err\<close> is the error of the reader, nil for \<^verbatim>\<open>io.EOF\<close>.
\<close>

record Scanner =
  input :: string
  inputErr :: "error option"
  bufLen :: nat
  maxTokenSz :: nat
  scanErr :: "error option"

definition LF :: char where
  "LF = CHR 0x0A"

definition CR :: char where
  "CR = CHR 0x0D"

definition dropCR :: "string \<Rightarrow> string" where
  "dropCR l = (if l \<noteq> [] \<and> last l = CR then butlast l else l)"

definition NewScanner :: "ReadCloser \<Rightarrow> Scanner" where
  "NewScanner r =
     \<lparr>input = content r, inputErr = readErr r, bufLen = 0, maxTokenSz = 64 * 1024,
      scanErr = None\<rparr>"

definition Buffer :: "Scanner \<Rightarrow> nat \<Rightarrow> nat \<Rightarrow> Scanner" where
  "Buffer sc n mx = sc\<lparr>bufLen := n, maxTokenSz := mx\<rparr>"

definition Scan :: "Scanner \<Rightarrow> string option \<times> Scanner" where
  "Scan sc =
     (if input sc = [] then (None, sc\<lparr>scanErr := inputErr sc\<rparr>)
      else
        let line = takeWhile (\<lambda>c. c \<noteq> LF) (input sc);
            rest = dropWhile (\<lambda>c. c \<noteq> LF) (input sc)
        in if max (bufLen sc) (maxTokenSz sc) \<le> length line
           then (None, sc\<lparr>scanErr := Some ErrTooLong\<rparr>)
           else (Some (dropCR line), sc\<lparr>input := drop 1 rest\<rparr>))"

definition Err :: "Scanner \<Rightarrow> error option" where
  "Err sc = scanErr sc"

subsection \<open>getDataOrExit\<close>

text \<open>
  The retry loop of \<^verbatim>\<open>getDataOrExit\<close> (lines 273 to 281). \<open>r\<close> is the pair
  \<^verbatim>\<open>(r, err)\<close> of the last download, \<open>Inl\<close> when \<^verbatim>\<open>err\<close> is not nil. The loop either
  returns from the function (\<open>Inl\<close>) or ends with the last pair (\<open>Inr\<close>).
\<close>

definition retryable :: "error + ReadCloser \<Rightarrow> bool" where
  "retryable r =
     (case r of
        Inl e \<Rightarrow> errorsIs e ErrorUnauthorized \<or> errorsIs e ErrorRetryableHTTPStatus
      | Inr _ \<Rightarrow> False)"

function getDataOrExit_loop ::
  "'w env \<Rightarrow> string \<Rightarrow> error + ReadCloser \<Rightarrow> nat \<Rightarrow> 'w state
     \<Rightarrow> (error + (error + ReadCloser)) \<times> 'w state" where
  "getDataOrExit_loop env url r numRetries s =
     (if retryable r \<and> numRetries < maxRetries then
        (case call (Sleep env 2) (\<lambda>_. EvSleep 2) s of
           (_, s1) \<Rightarrow>
             (case call (Authenticate env) EvAuthenticate s1 of
                (Some e, s2) \<Rightarrow> (Inl (Wrapf ''Error authenticating with API: '' e), s2)
              | (None, s2) \<Rightarrow>
                  (case call (GetData env url) (EvGetData url) s2 of
                     (r', s3) \<Rightarrow> getDataOrExit_loop env url r' (numRetries + 1) s3)))
      else (Inr r, s))"
  by pat_completeness auto
termination
  by (relation "measure (\<lambda>(env, url, r, numRetries, s). maxRetries - numRetries)") auto

declare getDataOrExit_loop.simps [simp del]

definition getDataOrExit ::
  "'w env \<Rightarrow> string \<Rightarrow> string \<Rightarrow> string \<Rightarrow> 'w state \<Rightarrow> (error + ReadCloser) \<times> 'w state" where
  "getDataOrExit env url cid csecret s =
     (case call (GetData env url) (EvGetData url) s of
        (r, s1) \<Rightarrow>
          (case getDataOrExit_loop env url r 0 s1 of
             (Inl e, s2) \<Rightarrow> (Inl e, s2)
           | (Inr (Inl e), s2) \<Rightarrow> (Inl (Wrapf (''Unable to GetData('' @ url @ '') '') e), s2)
           | (Inr (Inr rd), s2) \<Rightarrow> (Inr rd, s2)))"

subsection \<open>getBulkFHIRClient and getTransactionTimeStore\<close>

definition getBulkFHIRClient :: "'w env \<Rightarrow> mainWrapperConfig \<Rightarrow> 'w state \<Rightarrow> error option \<times> 'w state" where
  "getBulkFHIRClient env cfg s =
     (if useGeneralizedBulkImport cfg then
        (case call (NewHTTPBasicOAuthAuthenticator env (clientID cfg) (clientSecret cfg)
                      (authURL cfg) (fhirAuthScopes cfg)) EvNewAuthenticator s of
           (Some e, s1) \<Rightarrow> (Some e, s1)
         | (None, s1) \<Rightarrow> call (bulkfhir_NewClient env (baseServerURL cfg)) EvNewClient s1)
      else call (bcda_NewClient env (bcdaServerURL cfg) (clientID cfg) (clientSecret cfg))
             EvNewClient s)"

text \<open>\<^verbatim>\<open>strings.HasPrefix\<close>.\<close>

definition HasPrefix :: "string \<Rightarrow> string \<Rightarrow> bool" where
  "HasPrefix s p = (take (length p) s = p)"

definition getTransactionTimeStore ::
  "'w env \<Rightarrow> mainWrapperConfig \<Rightarrow> 'w state \<Rightarrow> (error + TransactionTimeStore) \<times> 'w state" where
  "getTransactionTimeStore env cfg s =
     (if since cfg \<noteq> [] \<and> sinceFile cfg \<noteq> [] then
        (Inl (New ''only one of since or since_file flags may be set (cannot set both)''), s)
      else if since cfg \<noteq> [] then
        (case call (NewInMemoryTransactionTimeStore env (since cfg))
                (EvNewStore (InMemoryTransactionTimeStore (since cfg))) s of
           (Some e, s1) \<Rightarrow> (Inl (Wrapf ''invalid since timestamp: '' e), s1)
         | (None, s1) \<Rightarrow> (Inr (InMemoryTransactionTimeStore (since cfg)), s1))
      else if HasPrefix (sinceFile cfg) ''gs://'' then
        (case call (NewGCSTransactionTimeStore env (gcsEndpoint cfg) (sinceFile cfg))
                (EvNewStore (GCSTransactionTimeStore (gcsEndpoint cfg) (sinceFile cfg))) s of
           (Some e, s1) \<Rightarrow> (Inl e, s1)
         | (None, s1) \<Rightarrow> (Inr (GCSTransactionTimeStore (gcsEndpoint cfg) (sinceFile cfg)), s1))
      else if sinceFile cfg \<noteq> [] then
        (Inr (LocalFileTransactionTimeStore (sinceFile cfg)), s)
      else
        (case call (NewInMemoryTransactionTimeStore env [])
                (EvNewStore (InMemoryTransactionTimeStore [])) s of
           (Some e, s1) \<Rightarrow> (Inl e, s1)
         | (None, s1) \<Rightarrow> (Inr (InMemoryTransactionTimeStore []), s1)))"

subsection \<open>mainWrapper\<close>

text \<open>
  How a call of \<^verbatim>\<open>mainWrapper\<close> ends: it returns its error value (\<open>None\<close> is nil), or it
  dereferences the nil \<^verbatim>\<open>monitorResult\<close> at line 178 and panics.
\<close>

datatype outcome = Return "error option" | NilDereference

text \<open>
  The inner loop of the download (lines 245 to 252): \<^verbatim>\<open>for s.Scan()\<close> hands every token
  to the pipeline and returns on its first error; after the last token the error of the
  scanner is read.
\<close>

lemma Scan_shorter:
  "Scan sc = (Some tok, sc') \<Longrightarrow> length (input sc') < length (input sc)"
proof -
  assume a: "Scan sc = (Some tok, sc')"
  then have ne: "input sc \<noteq> []" and
    sc': "sc' = sc\<lparr>input := drop 1 (dropWhile (\<lambda>c. c \<noteq> LF) (input sc))\<rparr>"
    by (auto simp: Scan_def Let_def split: if_splits)
  have "length (dropWhile (\<lambda>c. c \<noteq> LF) (input sc)) \<le> length (input sc)"
    by (rule length_dropWhile_le)
  moreover have "0 < length (input sc)"
    using ne by simp
  ultimately have "length (dropWhile (\<lambda>c. c \<noteq> LF) (input sc)) - 1 < length (input sc)"
    by arith
  then show ?thesis
    unfolding sc' by simp
qed

function mainWrapper_scan ::
  "'w env \<Rightarrow> string \<Rightarrow> string \<Rightarrow> Scanner \<Rightarrow> 'w state \<Rightarrow> error option \<times> 'w state" where
  "mainWrapper_scan env resourceType url sc s =
     (case Scan sc of
        (Some tok, sc') \<Rightarrow>
          (case call (Process env resourceType url tok) (EvProcess resourceType url tok) s of
             (Some e, s1) \<Rightarrow> (Some e, s1)
           | (None, s1) \<Rightarrow> mainWrapper_scan env resourceType url sc' s1)
      | (None, sc') \<Rightarrow> call (\<lambda>w. (Err sc', w)) (EvErr url) s)"
  by pat_completeness auto
termination
  by (relation "measure (\<lambda>(env, resourceType, url, sc, s). length (input sc))")
     (auto dest: Scan_shorter [OF sym])

declare mainWrapper_scan.simps [simp del]

text \<open>The loop over the URLs of one resource type (lines 237 to 253).\<close>

fun mainWrapper_urls ::
  "'w env \<Rightarrow> mainWrapperConfig \<Rightarrow> string \<Rightarrow> string list \<Rightarrow> 'w state \<Rightarrow> error option \<times> 'w state" where
  "mainWrapper_urls env cfg resourceType [] s = (None, s)"
| "mainWrapper_urls env cfg resourceType (url # urls) s =
     (case getDataOrExit env url (clientID cfg) (clientSecret cfg) s of
        (Inl e, s1) \<Rightarrow> (Some e, s1)
      | (Inr r, s1) \<Rightarrow>
          (case mainWrapper_scan env resourceType url
                  (Buffer (NewScanner r) initialBufferSize maxTokenSize)
                  (defer_call (DeferCloseReader r) s1) of
             (Some e, s2) \<Rightarrow> (Some e, s2)
           | (None, s2) \<Rightarrow> mainWrapper_urls env cfg resourceType urls s2))"

text \<open>The loop over the entries of \<^verbatim>\<open>jobStatus.ResultURLs\<close> (lines 236 to 254).\<close>

fun mainWrapper_download ::
  "'w env \<Rightarrow> mainWrapperConfig \<Rightarrow> (string \<times> string list) list \<Rightarrow> 'w state
     \<Rightarrow> error option \<times> 'w state" where
  "mainWrapper_download env cfg [] s = (None, s)"
| "mainWrapper_download env cfg ((resourceType, urls) # rest) s =
     (case mainWrapper_urls env cfg resourceType urls s of
        (Some e, s1) \<Rightarrow> (Some e, s1)
      | (None, s1) \<Rightarrow> mainWrapper_download env cfg rest s1)"

text \<open>Lines 236 to 265: the download, then \<^verbatim>\<open>Finalize\<close>, then \<^verbatim>\<open>Store\<close>.\<close>

definition mainWrapper_commit ::
  "'w env \<Rightarrow> mainWrapperConfig \<Rightarrow> TransactionTimeStore \<Rightarrow> JobStatus \<Rightarrow> 'w state
     \<Rightarrow> outcome \<times> 'w state" where
  "mainWrapper_commit env cfg sinceStore jobStatus s =
     (case mainWrapper_download env cfg (ResultURLs jobStatus) s of
        (Some e, s1) \<Rightarrow> (Return (Some e), s1)
      | (None, s1) \<Rightarrow>
          (case call (Finalize env) EvFinalize s1 of
             (Some e, s2) \<Rightarrow>
               (Return (Some (Wrapf ''failed to finalize output pipeline: '' e)), s2)
           | (None, s2) \<Rightarrow>
               (case call (Store env sinceStore (TransactionTime jobStatus))
                       (EvStore (TransactionTime jobStatus)) s2 of
                  (Some e, s3) \<Rightarrow>
                    (Return (Some (Errorf ''failed to store transaction timestamp: '' e)), s3)
                | (None, s3) \<Rightarrow> (Return None, s3))))"

text \<open>\<^verbatim>\<open>filepath.Split\<close>: the path up to and with its last slash, and the rest.\<close>

definition filepath_Split :: "string \<Rightarrow> string \<times> string" where
  "filepath_Split p =
     (rev (dropWhile (\<lambda>c. c \<noteq> CHR ''/'') (rev p)), rev (takeWhile (\<lambda>c. c \<noteq> CHR ''/'') (rev p)))"

text \<open>Lines 188 to 234: the processors, the sinks and the pipeline.\<close>

definition mainWrapper_pipeline ::
  "'w env \<Rightarrow> mainWrapperConfig \<Rightarrow> TransactionTimeStore \<Rightarrow> JobStatus \<Rightarrow> 'w state
     \<Rightarrow> outcome \<times> 'w state" where
  "mainWrapper_pipeline env cfg sinceStore jobStatus s =
     (let processors = (if rectify cfg then [BCDARectifyProcessor] else []) in
      case (if outputPrefix cfg \<noteq> [] then
              (case filepath_Split (outputPrefix cfg) of
                 (directory, filePrefix) \<Rightarrow>
                   (case call (NewNDJSONSink env directory filePrefix)
                           (EvNewNDJSONSink directory filePrefix) s of
                      (Some e, s1) \<Rightarrow> (Inl (Errorf ''error making ndjson sink: '' e), s1)
                    | (None, s1) \<Rightarrow> (Inr [NDJSONSink directory filePrefix], s1)))
            else (Inr [], s)) of
        (Inl e, s1) \<Rightarrow> (Return (Some e), s1)
      | (Inr sinks, s1) \<Rightarrow>
          (case (if enableFHIRStore cfg then
                   (case call (NewFHIRStoreSink env cfg) EvNewFHIRStoreSink s1 of
                      (Some e, s2) \<Rightarrow> (Inl (Errorf ''error making FHIR Store sink: '' e), s2)
                    | (None, s2) \<Rightarrow> (Inr (sinks @ [FHIRStoreSink]), s2))
                 else (Inr sinks, s1)) of
             (Inl e, s2) \<Rightarrow> (Return (Some e), s2)
           | (Inr sinks', s2) \<Rightarrow>
               (case call (NewPipeline env processors sinks')
                       (EvNewPipeline processors sinks') s2 of
                  (Some e, s3) \<Rightarrow> (Return (Some (Errorf ''error making output pipeline: '' e)), s3)
                | (None, s3) \<Rightarrow> mainWrapper_commit env cfg sinceStore jobStatus s3)))"

text \<open>
  Lines 164 to 186. The loop over the channel only logs; it leaves the last result in
  \<^verbatim>\<open>monitorResult\<close>, which stays nil when the channel delivers nothing.
\<close>

definition jobStatusTimeout :: string where
  "jobStatusTimeout = ''6h0m0s''"

definition mainWrapper_monitor ::
  "'w env \<Rightarrow> mainWrapperConfig \<Rightarrow> TransactionTimeStore \<Rightarrow> string \<Rightarrow> 'w state
     \<Rightarrow> outcome \<times> 'w state" where
  "mainWrapper_monitor env cfg sinceStore jobURL s =
     (case call (MonitorJobStatus env jobURL) (EvMonitorJobStatus jobURL) s of
        (results, s1) \<Rightarrow>
          (case foldl (\<lambda>_ r. Some r) None results of
             None \<Rightarrow> (NilDereference, s1)
           | Some monitorResult \<Rightarrow>
               (let jobStatus = Status monitorResult in
                if \<not> IsComplete jobStatus then
                  (Return (Some (New (''BCDA Job did not finish before the timeout of ''
                                       @ jobStatusTimeout))), s1)
                else mainWrapper_pipeline env cfg sinceStore jobStatus
                       (Set_TransactionTime (TransactionTime jobStatus) s1))))"

text \<open>Lines 109 to 126: the checks of the flags.\<close>

definition mainWrapper_flags :: "mainWrapperConfig \<Rightarrow> error option" where
  "mainWrapper_flags cfg =
     (if clientID cfg = [] \<or> clientSecret cfg = [] then
        Some (New ''both clientID and clientSecret flags must be non-empty'')
      else if enableFHIRStore cfg \<and> (fhirStoreGCPProject cfg = [] \<or>
                fhirStoreGCPLocation cfg = [] \<or> fhirStoreGCPDatasetID cfg = [] \<or>
                fhirStoreID cfg = []) then
        Some (New ''if enable_fhir_store is true, all other FHIR store related flags must be set'')
      else if enableFHIRStore cfg \<and> \<not> rectify cfg then Some errMustRectifyForFHIRStore
      else if fhirStoreEnableGCSBasedUpload cfg \<and> fhirStoreGCSBasedUploadBucket cfg = [] then
        Some errMustSpecifyGCSBucket
      else None)"

text \<open>Lines 107 to 162, up to the job URL; the rest of the function follows.\<close>

definition mainWrapper_body ::
  "'w env \<Rightarrow> mainWrapperConfig \<Rightarrow> 'w state \<Rightarrow> outcome \<times> 'w state" where
  "mainWrapper_body env cfg s =
     (case mainWrapper_flags cfg of
        Some e \<Rightarrow> (Return (Some e), s)
      | None \<Rightarrow>
          (case getBulkFHIRClient env cfg s of
             (Some e, s1) \<Rightarrow> (Return (Some (Errorf ''Error making bulkfhir client: '' e)), s1)
           | (None, s1) \<Rightarrow>
               (case getTransactionTimeStore env cfg (defer_call DeferClose s1) of
                  (Inl e, s2) \<Rightarrow> (Return (Some e), s2)
                | (Inr sinceStore, s2) \<Rightarrow>
                    (case call (Load env sinceStore) EvLoad s2 of
                       (Inl e, s3) \<Rightarrow> (Return (Some (Wrapf ''invalid since timestamp: '' e)), s3)
                     | (Inr since_t, s3) \<Rightarrow>
                         (if pendingJobURL cfg = [] then
                            (case call (StartBulkDataExport env since_t)
                                    (EvStartBulkDataExport since_t) (NewTransactionTime s3) of
                               (Inl e, s4) \<Rightarrow>
                                 (Return (Some (Errorf ''unable to StartBulkDataExport: '' e)), s4)
                             | (Inr jobURL, s4) \<Rightarrow>
                                 mainWrapper_monitor env cfg sinceStore jobURL s4)
                          else mainWrapper_monitor env cfg sinceStore (pendingJobURL cfg)
                                 (NewTransactionTime s3))))))"

text \<open>
  The deferred calls run when the function returns or panics, the latest first; what
  \<^verbatim>\<open>Close\<close> returns is logged or dropped.
\<close>

fun run_deferred :: "'w env \<Rightarrow> Deferred list \<Rightarrow> 'w state \<Rightarrow> 'w state" where
  "run_deferred env [] s = s"
| "run_deferred env (DeferClose # ds) s =
     run_deferred env ds (snd (call (Close env) EvClose s))"
| "run_deferred env (DeferCloseReader r # ds) s =
     run_deferred env ds (snd (call (CloseReader env r) (\<lambda>_. EvCloseReader r) s))"

definition mainWrapper :: "'w env \<Rightarrow> mainWrapperConfig \<Rightarrow> 'w state \<Rightarrow> outcome \<times> 'w state" where
  "mainWrapper env cfg s =
     (case mainWrapper_body env cfg s of
        (out, s1) \<Rightarrow> (out, run_deferred env (deferred s1) (s1\<lparr>deferred := []\<rparr>)))"

text \<open>A run starts with an empty trace, nothing deferred and no transaction time box.\<close>

definition init :: "'w \<Rightarrow> 'w state" where
  "init w = \<lparr>world = w, trace = [], deferred = [], transactionTime = None\<rparr>"

subsection \<open>A scripted environment and a configuration for concrete runs\<close>

text \<open>
  An environment whose world counts the downloads made so far. The \<open>n\<close>-th download
  returns \<open>dl n\<close>, every \<^verbatim>\<open>Authenticate\<close> returns \<open>auth\<close>, the monitor delivers \<open>mon\<close>,
  the pipeline answers a record \<open>tok\<close> with \<open>pr tok\<close>; every other call succeeds.
\<close>

definition scripted ::
  "(nat \<Rightarrow> error + ReadCloser) \<Rightarrow> error option \<Rightarrow> MonitorResult list \<Rightarrow> (string \<Rightarrow> error option)
     \<Rightarrow> nat env" where
  "scripted dl auth mon pr =
     \<lparr>bcda_NewClient = (\<lambda>_ _ _ w. (None, w)),
      NewHTTPBasicOAuthAuthenticator = (\<lambda>_ _ _ _ w. (None, w)),
      bulkfhir_NewClient = (\<lambda>_ w. (None, w)),
      Close = (\<lambda>w. (None, w)),
      NewInMemoryTransactionTimeStore = (\<lambda>_ w. (None, w)),
      NewGCSTransactionTimeStore = (\<lambda>_ _ w. (None, w)),
      Load = (\<lambda>_ w. (Inr 0, w)),
      Store = (\<lambda>_ _ w. (None, w)),
      StartBulkDataExport = (\<lambda>_ w. (Inr ''job'', w)),
      MonitorJobStatus = (\<lambda>_ w. (mon, w)),
      NewNDJSONSink = (\<lambda>_ _ w. (None, w)),
      NewFHIRStoreSink = (\<lambda>_ w. (None, w)),
      NewPipeline = (\<lambda>_ _ w. (None, w)),
      GetData = (\<lambda>_ w. (dl w, Suc w)),
      Authenticate = (\<lambda>w. (auth, w)),
      Sleep = (\<lambda>_ w. ((), w)),
      Process = (\<lambda>_ _ tok w. (pr tok, w)),
      Finalize = (\<lambda>w. (None, w)),
      CloseReader = (\<lambda>_ w. ((), w))\<rparr>"

definition config :: "string \<Rightarrow> string \<Rightarrow> string \<Rightarrow> string \<Rightarrow> mainWrapperConfig" where
  "config cid csecret snc sncFile =
     \<lparr>fhirStoreEndpoint = [], gcsEndpoint = [], clientID = cid, clientSecret = csecret,
      outputPrefix = ''out/data'', rectify = False, enableFHIRStore = False,
      maxFHIRStoreUploadWorkers = 10, fhirStoreGCPProject = [], fhirStoreGCPLocation = [],
      fhirStoreGCPDatasetID = [], fhirStoreID = [], fhirStoreUploadErrorFileDir = [],
      fhirStoreEnableBatchUpload = False, fhirStoreBatchUploadSize = 0,
      fhirStoreEnableGCSBasedUpload = False, fhirStoreGCSBasedUploadBucket = [],
      bcdaServerURL = ''https://sandbox.bcda.cms.gov'', useGeneralizedBulkImport = False,
      baseServerURL = [], authURL = [], fhirAuthScopes = [], since = snc,
      sinceFile = sncFile, noFailOnUploadErrors = False, pendingJobURL = []\<rparr>"

section \<open>Observations on the trace of a run\<close>

text \<open>
  Every call of a collaborator is logged, so what a run did is read off its trace. The
  functions of this section classify the events and extract from a trace the calls the
  properties speak about; the predicates describe the trace each part of
  \<^verbatim>\<open>mainWrapper\<close> can produce.
\<close>

subsection \<open>Kinds of events and the error an event ends a run with\<close>

text \<open>
  The events of \<^verbatim>\<open>getDataOrExit\<close>: a download, a sleep, a re-authentication.
\<close>

fun fetch_event :: "event \<Rightarrow> bool" where
  "fetch_event (EvGetData u r) = True"
| "fetch_event (EvSleep n) = True"
| "fetch_event (EvAuthenticate r) = True"
| "fetch_event ev = False"

text \<open>
  The events of the scan of one stream: a record handed to the pipeline, and the
  scanner's final \<^verbatim>\<open>Err\<close>.
\<close>

fun scan_event :: "event \<Rightarrow> bool" where
  "scan_event (EvProcess rt u tok r) = True"
| "scan_event (EvErr u r) = True"
| "scan_event ev = False"

text \<open>
  The error with which \<^verbatim>\<open>mainWrapper\<close> returns when this event is the last one before
  it gives up, with the wrapping of lines 277, 284 and 257.
\<close>

fun final_error :: "event \<Rightarrow> error option" where
  "final_error (EvProcess rt u tok r) = r"
| "final_error (EvErr u r) = r"
| "final_error (EvAuthenticate (Some a)) = Some (Wrapf ''Error authenticating with API: '' a)"
| "final_error (EvGetData u (Inl e)) = Some (Wrapf (''Unable to GetData('' @ u @ '') '') e)"
| "final_error (EvFinalize (Some e)) = Some (Wrapf ''failed to finalize output pipeline: '' e)"
| "final_error ev = None"

text \<open>
  The same, except that a failed download is no failure by itself: it may be retried.
\<close>

fun failure_of :: "event \<Rightarrow> error option" where
  "failure_of (EvGetData u r) = None"
| "failure_of ev = final_error ev"

text \<open>
  A download that delivered a stream.
\<close>

fun ok_fetch :: "event \<Rightarrow> bool" where
  "ok_fetch (EvGetData u (Inr r)) = True"
| "ok_fetch ev = False"

definition silent :: "event \<Rightarrow> bool" where
  "silent ev = (failure_of ev = None \<and> \<not> ok_fetch ev)"

subsection \<open>The trace of a fetch and of the scan of a stream\<close>

text \<open>
  \<open>fetch_ok url res evs\<close>: the events \<open>evs\<close> are those of one fetch of \<open>url\<close> returning
  \<open>res\<close>. \<open>loop_ok\<close> is the same for the retry loop entered with the result \<open>r\<close> of the
  download before it.
\<close>

definition fetch_ok :: "string \<Rightarrow> error + ReadCloser \<Rightarrow> event list \<Rightarrow> bool" where
  "fetch_ok url res evs =
     (evs \<noteq> [] \<and> list_all fetch_event evs \<and> list_all silent (butlast evs) \<and>
      (case res of Inr rd \<Rightarrow> last evs = EvGetData url (Inr rd)
       | Inl e \<Rightarrow> final_error (last evs) = Some e))"

definition loop_ok :: "string \<Rightarrow> error + ReadCloser \<Rightarrow> error + (error + ReadCloser) \<Rightarrow> event list \<Rightarrow> bool" where
  "loop_ok url r res evs =
     (list_all fetch_event evs \<and> list_all silent (butlast evs) \<and>
      (if evs = [] then res = Inr r
       else (\<exists>e. r = Inl e) \<and>
            (case res of Inr r' \<Rightarrow> last evs = EvGetData url r'
             | Inl e \<Rightarrow> (\<exists>a. last evs = EvAuthenticate (Some a) \<and>
                             e = Wrapf ''Error authenticating with API: '' a))))"

text \<open>
  An event that is no failure.
\<close>

definition quiet :: "event \<Rightarrow> bool" where
  "quiet ev = (failure_of ev = None)"

text \<open>
  The URLs whose stream was scanned to its end without an error of the scanner.
\<close>

fun scannedURLs :: "event list \<Rightarrow> string list" where
  "scannedURLs [] = []"
| "scannedURLs (EvErr u None # evs) = u # scannedURLs evs"
| "scannedURLs (ev # evs) = scannedURLs evs"

text \<open>
  \<open>scan_ok url res evs\<close>: the events \<open>evs\<close> are those of the scan of the stream of \<open>url\<close>
  ending with \<open>res\<close>.
\<close>

definition scan_ok :: "string \<Rightarrow> error option \<Rightarrow> event list \<Rightarrow> bool" where
  "scan_ok url res evs =
     (evs \<noteq> [] \<and> list_all scan_event evs \<and>
      list_all quiet (butlast evs) \<and> final_error (last evs) = res \<and>
      scannedURLs evs = (if res = None then [url] else []))"

subsection \<open>Records beyond the size bound\<close>

text \<open>
  \<open>record_longer mx n cs\<close>: some line of \<open>cs\<close>, the first one counted from its \<open>n\<close>-th
  character, has more than \<open>mx\<close> characters before its newline or the end of the data.
\<close>

fun record_longer :: "nat \<Rightarrow> nat \<Rightarrow> string \<Rightarrow> bool" where
  "record_longer mx n [] = (mx < n)"
| "record_longer mx n (c # cs) =
     (if c = LF then mx < n \<or> record_longer mx 0 cs else record_longer mx (Suc n) cs)"

text \<open>
  A stream with a record larger than the maximum record size of lines 92 and 244.
\<close>

definition hasOversizeRecord :: "ReadCloser \<Rightarrow> bool" where
  "hasOversizeRecord r = record_longer maxTokenSize 0 (content r)"

subsection \<open>The trace of the download loops\<close>

text \<open>
  The URLs downloaded successfully, in the order of the downloads.
\<close>

fun okURLs :: "event list \<Rightarrow> string list" where
  "okURLs [] = []"
| "okURLs (EvGetData u (Inr r) # evs) = u # okURLs evs"
| "okURLs (ev # evs) = okURLs evs"

text \<open>
  The last download of a trace, with its result.
\<close>

fun lastGet :: "event list \<Rightarrow> (string \<times> (error + ReadCloser)) option" where
  "lastGet [] = None"
| "lastGet (ev # evs) =
     (case lastGet evs of
        Some p \<Rightarrow> Some p
      | None \<Rightarrow> (case ev of EvGetData u r \<Rightarrow> Some (u, r) | _ \<Rightarrow> None))"

text \<open>
  After the first download of a stream with an oversize record only records of that stream
  are processed, and the result is the scanner's \<^verbatim>\<open>ErrTooLong\<close> or the error of the
  pipeline on the last record processed.
\<close>

fun after_oversize :: "error option \<Rightarrow> event list \<Rightarrow> bool" where
  "after_oversize res [] = True"
| "after_oversize res (EvGetData u (Inr r) # evs) =
     (if hasOversizeRecord r then
        list_all scan_event evs \<and>
        (res = Some ErrTooLong \<or>
         (\<exists>rt tok e. res = Some e \<and> evs \<noteq> [] \<and> last evs = EvProcess rt u tok (Some e)))
      else after_oversize res evs)"
| "after_oversize res (ev # evs) = after_oversize res evs"

definition dl_event :: "event \<Rightarrow> bool" where
  "dl_event ev = (fetch_event ev \<or> scan_event ev)"

text \<open>
  \<open>dl_ok urls res evs\<close>: the events \<open>evs\<close> are those of the download loops over \<open>urls\<close>
  ending with \<open>res\<close>. Only the last event can be a failure, and it decides the result; when
  there is none every URL was downloaded and scanned, in order; otherwise the downloaded
  URLs are a prefix of \<open>urls\<close>.
\<close>

definition dl_ok :: "string list \<Rightarrow> error option \<Rightarrow> event list \<Rightarrow> bool" where
  "dl_ok urls res evs =
     (list_all dl_event evs \<and> list_all quiet (butlast evs) \<and>
      (if evs = [] then None else final_error (last evs)) = res \<and>
      (if res = None then okURLs evs = urls \<and> scannedURLs evs = urls
       else \<exists>rest. urls = okURLs evs @ rest) \<and>
      (evs \<noteq> [] \<longrightarrow>
         (if scan_event (last evs) then \<exists>u r. lastGet evs = Some (u, Inr r) else res \<noteq> None)) \<and>
      after_oversize res evs)"

subsection \<open>The records of a stream and the work of a run\<close>

text \<open>
  The lines of a text as \<^verbatim>\<open>ScanLines\<close> cuts them, \<open>acc\<close> being the line read so far: a line
  ends at a line feed; the line feed and one carriage return before it are dropped; the
  text after the last line feed is a line when it is not empty.
\<close>

fun split_lines :: "string \<Rightarrow> string \<Rightarrow> string list" where
  "split_lines acc [] = (if acc = [] then [] else [dropCR acc])"
| "split_lines acc (c # cs) =
     (if c = LF then dropCR acc # split_lines [] cs else split_lines (acc @ [c]) cs)"

text \<open>
  The records of a downloaded stream: the lines of its content.
\<close>

definition records :: "ReadCloser \<Rightarrow> string list" where
  "records r = split_lines [] (content r)"

text \<open>
  The steps of the download that succeeded: a download that delivered a stream, a record
  the pipeline accepted, a scan that reached the end of its stream. The work of a run is
  the sequence of these steps in its trace.
\<close>

fun done_event :: "event \<Rightarrow> bool" where
  "done_event (EvGetData u (Inr r)) = True"
| "done_event (EvProcess rt u tok None) = True"
| "done_event (EvErr u None) = True"
| "done_event ev = False"

definition work :: "event list \<Rightarrow> event list" where
  "work tr = filter done_event tr"

text \<open>
  The streams downloaded successfully, in the order of the downloads.
\<close>

fun okStreams :: "event list \<Rightarrow> ReadCloser list" where
  "okStreams [] = []"
| "okStreams (EvGetData u (Inr r) # evs) = r # okStreams evs"
| "okStreams (ev # evs) = okStreams evs"

text \<open>
  The work on one URL of a resource type: the download of its stream, every record of the
  stream handed to the pipeline with the resource type and the URL, in order, and the
  clean end of the scan.
\<close>

definition stream_events :: "string \<Rightarrow> string \<Rightarrow> ReadCloser \<Rightarrow> event list" where
  "stream_events rt u r =
     EvGetData u (Inr r) # map (\<lambda>tok. EvProcess rt u tok None) (records r) @ [EvErr u None]"

text \<open>
  The result URLs with their resource types, in the order of the entries and, within an
  entry, of its list; and the work on the first URLs of such a list, given their streams.
\<close>

definition targets :: "(string \<times> string list) list \<Rightarrow> (string \<times> string) list" where
  "targets entries = concat (map (\<lambda>(rt, urls). map (Pair rt) urls) entries)"

definition expected :: "(string \<times> string) list \<Rightarrow> ReadCloser list \<Rightarrow> event list" where
  "expected ps rs = concat (map (\<lambda>((rt, u), r). stream_events rt u r) (zip ps rs))"

text \<open>
  \<open>dl_work ps res evs\<close>: the work in the events \<open>evs\<close> of the download loops over the URLs
  \<open>ps\<close> ending with \<open>res\<close> is an initial part of the work on the URLs downloaded, and all
  of the work on all of \<open>ps\<close> when the loops end without error.
\<close>

definition dl_work :: "(string \<times> string) list \<Rightarrow> error option \<Rightarrow> event list \<Rightarrow> bool" where
  "dl_work ps res evs =
     (length (okStreams evs) \<le> length ps \<and>
      (\<exists>rest. work evs @ rest = expected ps (okStreams evs)) \<and>
      (res = None \<longrightarrow>
         length (okStreams evs) = length ps \<and> work evs = expected ps (okStreams evs)))"

subsection \<open>The trace of a whole run\<close>

text \<open>
  The events before the monitor (lines 132 to 162), those of lines 188 to 234, and the
  deferred closes.
\<close>

fun setup_event :: "event \<Rightarrow> bool" where
  "setup_event (EvNewAuthenticator r) = True"
| "setup_event (EvNewClient r) = True"
| "setup_event (EvNewStore st r) = True"
| "setup_event (EvLoad r) = True"
| "setup_event (EvStartBulkDataExport t r) = True"
| "setup_event ev = False"

fun build_event :: "event \<Rightarrow> bool" where
  "build_event (EvNewNDJSONSink d f r) = True"
| "build_event (EvNewFHIRStoreSink r) = True"
| "build_event (EvNewPipeline ps ss r) = True"
| "build_event ev = False"

fun close_event :: "event \<Rightarrow> bool" where
  "close_event (EvClose r) = True"
| "close_event (EvCloseReader r) = True"
| "close_event ev = False"

text \<open>
  The events after the download loops: nothing when they failed, otherwise
  \<^verbatim>\<open>Finalize\<close> and, when it succeeded, \<^verbatim>\<open>Store\<close> with the job's transaction time.
\<close>

definition finish_ok :: "Time \<Rightarrow> error option \<Rightarrow> event list \<Rightarrow> outcome \<Rightarrow> bool" where
  "finish_ok t res fin out =
     (case res of
        Some e \<Rightarrow> fin = [] \<and> out = Return (Some e)
      | None \<Rightarrow>
          (\<exists>e. fin = [EvFinalize (Some e)] \<and>
               out = Return (Some (Wrapf ''failed to finalize output pipeline: '' e))) \<or>
          (\<exists>r. fin = [EvFinalize None, EvStore t r] \<and>
               out = Return (map_option (Errorf ''failed to store transaction timestamp: '') r)))"

definition commit_ok :: "JobStatus \<Rightarrow> event list \<Rightarrow> outcome \<Rightarrow> bool" where
  "commit_ok js evs out =
     (\<exists>res dl fin. evs = dl @ fin \<and> dl_ok (concat (map snd (ResultURLs js))) res dl \<and>
        finish_ok (TransactionTime js) res fin out \<and> dl_work (targets (ResultURLs js)) res dl)"

definition pipeline_ok :: "JobStatus \<Rightarrow> event list \<Rightarrow> outcome \<Rightarrow> bool" where
  "pipeline_ok js evs out =
     (\<exists>build rest. evs = build @ rest \<and> list_all build_event build \<and>
        ((rest = [] \<and> (\<exists>e. out = Return (Some e))) \<or> commit_ok js rest out))"

text \<open>
  The error of line 180.
\<close>

definition timeoutError :: error where
  "timeoutError = New (''BCDA Job did not finish before the timeout of '' @ jobStatusTimeout)"

text \<open>
  The events from the monitor on, the outcome and the final content of the transaction
  time box, by the last status the monitor delivered.
\<close>

definition monitor_ok :: "event list \<Rightarrow> outcome \<Rightarrow> Time option \<Rightarrow> bool" where
  "monitor_ok evs out box =
     (\<exists>u rs rest. evs = EvMonitorJobStatus u rs # rest \<and>
        (if rs = [] then rest = [] \<and> out = NilDereference \<and> box = None
         else if \<not> IsComplete (Status (last rs)) then
           rest = [] \<and> out = Return (Some timeoutError) \<and> box = None
         else \<exists>tl. rest = EvSet (TransactionTime (Status (last rs))) # tl \<and>
                box = Some (TransactionTime (Status (last rs))) \<and>
                pipeline_ok (Status (last rs)) tl out))"

definition body_ok :: "event list \<Rightarrow> outcome \<Rightarrow> Time option \<Rightarrow> bool" where
  "body_ok evs out box =
     (\<exists>ini rest. evs = ini @ rest \<and> list_all setup_event ini \<and>
        ((rest = [] \<and> (\<exists>e. out = Return (Some e)) \<and> box = None) \<or> monitor_ok rest out box))"

text \<open>
  \<open>main_ok tr out box\<close>: the trace, the outcome and the final content of the transaction
  time box of a run of \<^verbatim>\<open>mainWrapper\<close>.
\<close>

definition main_ok :: "event list \<Rightarrow> outcome \<Rightarrow> Time option \<Rightarrow> bool" where
  "main_ok tr out box =
     (\<exists>evs closes. tr = evs @ closes \<and> body_ok evs out box \<and> list_all close_event closes)"

subsection \<open>The exact trace of a fetch\<close>

text \<open>
  The events of one retry: the sleep of two seconds, a successful re-authentication and
  the download with its result.
\<close>

definition retry_events :: "string \<Rightarrow> error + ReadCloser \<Rightarrow> event list" where
  "retry_events url r = [EvSleep 2, EvAuthenticate None, EvGetData url r]"

text \<open>
  The results of the downloads and of the re-authentications of a trace, in order.
\<close>

fun getDataResults :: "event list \<Rightarrow> (error + ReadCloser) list" where
  "getDataResults [] = []"
| "getDataResults (EvGetData u r # evs) = r # getDataResults evs"
| "getDataResults (ev # evs) = getDataResults evs"

fun authResults :: "event list \<Rightarrow> error option list" where
  "authResults [] = []"
| "authResults (EvAuthenticate r # evs) = r # authResults evs"
| "authResults (ev # evs) = authResults evs"

text \<open>
  The exact events of the retry loop entered with the result \<open>r\<close> and \<open>n\<close> retries made,
  and of a whole fetch: every download but the last was retryable; the fetch ends with a
  download when that one is not retryable or the retries are used up, and with a failed
  re-authentication otherwise.
\<close>

definition loop_exact ::
  "string \<Rightarrow> error + ReadCloser \<Rightarrow> nat \<Rightarrow> error + (error + ReadCloser) \<Rightarrow> event list \<Rightarrow> bool" where
  "loop_exact url r n res evs =
     (\<exists>rs. list_all retryable (butlast (r # rs)) \<and> n + length rs \<le> maxRetries \<and>
        (case res of
           Inr r' \<Rightarrow> evs = concat (map (retry_events url) rs) \<and> r' = last (r # rs) \<and>
                     (retryable r' \<longrightarrow> n + length rs = maxRetries)
         | Inl e \<Rightarrow> \<exists>a. evs = concat (map (retry_events url) rs) @
                               [EvSleep 2, EvAuthenticate (Some a)] \<and>
                     e = Wrapf ''Error authenticating with API: '' a \<and>
                     retryable (last (r # rs)) \<and> n + length rs < maxRetries))"

definition fetch_exact :: "string \<Rightarrow> error + ReadCloser \<Rightarrow> event list \<Rightarrow> bool" where
  "fetch_exact url res evs =
     (\<exists>r0 rs. list_all retryable (butlast (r0 # rs)) \<and> length rs \<le> maxRetries \<and>
        (case res of
           Inr rd \<Rightarrow> evs = EvGetData url r0 # concat (map (retry_events url) rs) \<and>
                     last (r0 # rs) = Inr rd
         | Inl e \<Rightarrow>
             (\<exists>e0. evs = EvGetData url r0 # concat (map (retry_events url) rs) \<and>
                   last (r0 # rs) = Inl e0 \<and>
                   e = Wrapf (''Unable to GetData('' @ url @ '') '') e0 \<and>
                   (retryable (Inl e0) \<longrightarrow> length rs = maxRetries)) \<or>
             (\<exists>a. evs = EvGetData url r0 # concat (map (retry_events url) rs) @
                               [EvSleep 2, EvAuthenticate (Some a)] \<and>
                   e = Wrapf ''Error authenticating with API: '' a \<and>
                   retryable (last (r0 # rs)) \<and> length rs < maxRetries)))"

subsection \<open>Calls of the transaction time box and of the checkpoint store\<close>

text \<open>
  The values the transaction time box was set to, in order.
\<close>

fun setCalls :: "event list \<Rightarrow> Time list" where
  "setCalls [] = []"
| "setCalls (EvSet t # evs) = t # setCalls evs"
| "setCalls (ev # evs) = setCalls evs"

text \<open>
  The monitor ended with a complete status, every result URL of that status was
  downloaded and scanned to its end, in the order of the status, the work of the run is
  the work on all these URLs (every record of every stream was handed to the pipeline and
  accepted), and no step failed.
\<close>

definition downloads_complete :: "event list \<Rightarrow> bool" where
  "downloads_complete tr =
     ((\<exists>u rs. EvMonitorJobStatus u rs \<in> set tr \<and> rs \<noteq> [] \<and> IsComplete (Status (last rs)) \<and>
         okURLs tr = concat (map snd (ResultURLs (Status (last rs)))) \<and>
         scannedURLs tr = concat (map snd (ResultURLs (Status (last rs)))) \<and>
         length (okStreams tr) = length (targets (ResultURLs (Status (last rs)))) \<and>
         work tr = expected (targets (ResultURLs (Status (last rs)))) (okStreams tr)) \<and>
      (\<forall>ev \<in> set tr. failure_of ev = None))"

text \<open>
  The calls of the checkpoint store's \<^verbatim>\<open>Store\<close>, with their results.
\<close>

fun storeCalls :: "event list \<Rightarrow> (Time \<times> error option) list" where
  "storeCalls [] = []"
| "storeCalls (EvStore t r # evs) = (t, r) # storeCalls evs"
| "storeCalls (ev # evs) = storeCalls evs"

text \<open>
  The events that are neither part of the download nor \<^verbatim>\<open>Finalize\<close> or \<^verbatim>\<open>Store\<close>.
\<close>

fun idle_event :: "event \<Rightarrow> bool" where
  "idle_event (EvGetData u r) = False"
| "idle_event (EvSleep n) = False"
| "idle_event (EvAuthenticate r) = False"
| "idle_event (EvProcess rt u tok r) = False"
| "idle_event (EvErr u r) = False"
| "idle_event (EvFinalize r) = False"
| "idle_event (EvStore t r) = False"
| "idle_event ev = True"

text \<open>
  The events of \<^verbatim>\<open>getBulkFHIRClient\<close> and of the deferred \<^verbatim>\<open>Close\<close> of the client.
\<close>

fun client_event :: "event \<Rightarrow> bool" where
  "client_event (EvNewAuthenticator r) = True"
| "client_event (EvNewClient r) = True"
| "client_event (EvClose r) = True"
| "client_event ev = False"

subsection \<open>Data for concrete runs\<close>

text \<open>
  A monitor result without error, with the completion flag and the result URLs given, and
  four streams: two records, no record, one record beyond the size bound, and a small
  record followed by one beyond the bound.
\<close>

definition jobStatus :: "bool \<Rightarrow> (string \<times> string list) list \<Rightarrow> MonitorResult" where
  "jobStatus done urls =
     \<lparr>Status = \<lparr>IsComplete = done, PercentComplete = 50, ResultURLs = urls,
                TransactionTime = 7\<rparr>, Error = None\<rparr>"

definition smallBody :: ReadCloser where
  "smallBody = \<lparr>content = ''a'' @ [LF] @ ''b'', readErr = None\<rparr>"

definition emptyBody :: ReadCloser where
  "emptyBody = \<lparr>content = [], readErr = None\<rparr>"

definition bigBody :: ReadCloser where
  "bigBody = \<lparr>content = replicate (Suc maxTokenSize) (CHR ''a''), readErr = None\<rparr>"

definition mixedBody :: ReadCloser where
  "mixedBody = \<lparr>content = ''x'' @ [LF] @ replicate (Suc maxTokenSize) (CHR ''a''),
     readErr = None\<rparr>"

section \<open>The trace of each part of the run\<close>

text \<open>
  One lemma for each function of the model: the events it appends to the trace and the
  result it returns. They are composed, from \<^verbatim>\<open>getDataOrExit\<close> up to
  \<^verbatim>\<open>mainWrapper\<close>, into the description of a whole run.
\<close>

subsection \<open>The fetch\<close>

lemma call_eq:
  "call f ev s = (fst (f (world s)),
     s\<lparr>world := snd (f (world s)), trace := trace s @ [ev (fst (f (world s)))]\<rparr>)"
  by (simp add: call_def split: prod.splits)

lemma retryable_Inl: "retryable r \<Longrightarrow> \<exists>e. r = Inl e"
  by (cases r) (auto simp: retryable_def)

lemma loop_spec:
  "getDataOrExit_loop env url r n s = (res, s') \<Longrightarrow>
   \<exists>evs. trace s' = trace s @ evs \<and> deferred s' = deferred s \<and>
         transactionTime s' = transactionTime s \<and> loop_ok url r res evs"
proof (induction env url r n s arbitrary: res s' rule: getDataOrExit_loop.induct)
  case (1 env url r n s)
  show ?case
  proof (cases "retryable r \<and> n < maxRetries")
    case False
    with "1.prems" show ?thesis
      by (subst (asm) getDataOrExit_loop.simps) (auto simp: loop_ok_def)
  next
    case True
    define s1 where "s1 = snd (call (Sleep env 2) (\<lambda>_. EvSleep 2) s)"
    define a where "a = fst (call (Authenticate env) EvAuthenticate s1)"
    define s2 where "s2 = snd (call (Authenticate env) EvAuthenticate s1)"
    define r' where "r' = fst (call (GetData env url) (EvGetData url) s2)"
    define s3 where "s3 = snd (call (GetData env url) (EvGetData url) s2)"
    have t2: "trace s2 = trace s @ [EvSleep 2, EvAuthenticate a]"
      "deferred s2 = deferred s" "transactionTime s2 = transactionTime s"
      by (simp_all add: s2_def s1_def a_def call_eq)
    have t3: "trace s3 = trace s @ [EvSleep 2, EvAuthenticate a, EvGetData url r']"
      "deferred s3 = deferred s" "transactionTime s3 = transactionTime s"
      using t2 by (simp_all add: s3_def r'_def call_eq)
    obtain e0 where e0: "r = Inl e0" using True retryable_Inl by blast
    show ?thesis
    proof (cases a)
      case (Some e)
      with "1.prems" True have "res = Inl (Wrapf ''Error authenticating with API: '' e)" "s' = s2"
        by (subst (asm) getDataOrExit_loop.simps; auto simp: a_def s2_def s1_def split: prod.splits)+
      then show ?thesis using t2 Some e0
        by (auto simp: loop_ok_def silent_def)
    next
      case None
      with "1.prems" True have rec: "getDataOrExit_loop env url r' (n + 1) s3 = (res, s')"
        by (subst (asm) getDataOrExit_loop.simps)
           (auto simp: a_def s2_def s1_def r'_def s3_def split: prod.splits)
      have "\<exists>evs. trace s' = trace s3 @ evs \<and> deferred s' = deferred s3 \<and>
         transactionTime s' = transactionTime s3 \<and> loop_ok url r' res evs"
        by (rule "1.IH" [OF True _ _ _ _ rec, of "()" s1 a s2])
           (use None in \<open>simp_all add: prod_eq_iff a_def s2_def s1_def r'_def s3_def\<close>)
      then obtain evs where evs: "trace s' = trace s3 @ evs" "deferred s' = deferred s3"
         "transactionTime s' = transactionTime s3" "loop_ok url r' res evs" by blast
      show ?thesis
        apply (rule exI [of _ "[EvSleep 2, EvAuthenticate a, EvGetData url r'] @ evs"])
        using evs t3 None e0
        by (auto simp: loop_ok_def silent_def split: sum.splits if_splits)
    qed
  qed
qed

lemma fetch_spec:
  assumes "getDataOrExit env url cid cs s = (res, s')"
  shows "\<exists>evs. trace s' = trace s @ evs \<and> deferred s' = deferred s \<and>
         transactionTime s' = transactionTime s \<and> fetch_ok url res evs"
proof -
  define r0 where "r0 = fst (call (GetData env url) (EvGetData url) s)"
  define s1 where "s1 = snd (call (GetData env url) (EvGetData url) s)"
  obtain lres s2 where l: "getDataOrExit_loop env url r0 0 s1 = (lres, s2)"
    by (cases "getDataOrExit_loop env url r0 0 s1")
  have t1: "trace s1 = trace s @ [EvGetData url r0]" "deferred s1 = deferred s"
    "transactionTime s1 = transactionTime s"
    by (simp_all add: s1_def r0_def call_eq)
  from loop_spec [OF l] obtain evs where evs: "trace s2 = trace s1 @ evs"
    "deferred s2 = deferred s1" "transactionTime s2 = transactionTime s1"
    "loop_ok url r0 lres evs" by blast
  have s': "s' = s2" and res: "res = (case lres of Inl e \<Rightarrow> Inl e
      | Inr (Inl e) \<Rightarrow> Inl (Wrapf (''Unable to GetData('' @ url @ '') '') e)
      | Inr (Inr rd) \<Rightarrow> Inr rd)"
    using assms l
    by (auto simp: getDataOrExit_def r0_def s1_def split: prod.splits sum.splits)
  have "fetch_ok url res (EvGetData url r0 # evs)"
    using evs(4) unfolding res
    by (auto simp: fetch_ok_def loop_ok_def silent_def split: sum.splits if_splits)
  then show ?thesis
    using evs t1 s' by (intro exI [of _ "EvGetData url r0 # evs"]) simp
qed

subsection \<open>The scan of a stream\<close>

lemma scan_spec:
  "mainWrapper_scan env rt url sc s = (res, s') \<Longrightarrow>
   \<exists>evs. trace s' = trace s @ evs \<and> deferred s' = deferred s \<and>
         transactionTime s' = transactionTime s \<and> scan_ok url res evs"
proof (induction env rt url sc s arbitrary: res s' rule: mainWrapper_scan.induct)
  case (1 env rt url sc s)
  obtain t sc' where sc: "Scan sc = (t, sc')" by (cases "Scan sc")
  show ?case
  proof (cases t)
    case None
    with "1.prems" sc show ?thesis
      by (subst (asm) mainWrapper_scan.simps)
         (auto simp: call_eq scan_ok_def quiet_def intro!: exI [of _ "[EvErr url (Err sc')]"])
  next
    case (Some tok)
    define p where "p = fst (call (Process env rt url tok) (EvProcess rt url tok) s)"
    define s1 where "s1 = snd (call (Process env rt url tok) (EvProcess rt url tok) s)"
    have t1: "trace s1 = trace s @ [EvProcess rt url tok p]" "deferred s1 = deferred s"
      "transactionTime s1 = transactionTime s"
      by (simp_all add: s1_def p_def call_eq)
    show ?thesis
    proof (cases p)
      case (Some e)
      with "1.prems" sc \<open>t = Some tok\<close> have "res = Some e" "s' = s1"
        by (subst (asm) mainWrapper_scan.simps; auto simp: p_def s1_def split: prod.splits)+
      then show ?thesis using t1 Some
        by (auto simp: scan_ok_def quiet_def intro!: exI [of _ "[EvProcess rt url tok p]"])
    next
      case None
      with "1.prems" sc \<open>t = Some tok\<close> have rec: "mainWrapper_scan env rt url sc' s1 = (res, s')"
        by (subst (asm) mainWrapper_scan.simps) (auto simp: p_def s1_def split: prod.splits)
      have "\<exists>evs. trace s' = trace s1 @ evs \<and> deferred s' = deferred s1 \<and>
         transactionTime s' = transactionTime s1 \<and> scan_ok url res evs"
        by (rule "1.IH" [OF _ _ _ _ rec, of "Some tok" tok p])
           (use None sc \<open>t = Some tok\<close> in \<open>simp_all add: prod_eq_iff p_def s1_def\<close>)
      then obtain evs where evs: "trace s' = trace s1 @ evs" "deferred s' = deferred s1"
         "transactionTime s' = transactionTime s1" "scan_ok url res evs" by blast
      show ?thesis
        apply (rule exI [of _ "EvProcess rt url tok p # evs"])
        using evs t1 None
        by (auto simp: scan_ok_def quiet_def)
    qed
  qed
qed

lemma record_longer_line:
  "record_longer mx n bs =
     (mx < n + length (takeWhile (\<lambda>c. c \<noteq> LF) bs) \<or>
      record_longer mx 0 (drop 1 (dropWhile (\<lambda>c. c \<noteq> LF) bs)))"
  by (induction bs arbitrary: n) auto

lemma scan_oversize:
  "mainWrapper_scan env rt url sc s = (res, s') \<Longrightarrow>
   record_longer mx 0 (input sc) \<Longrightarrow> max (bufLen sc) (maxTokenSz sc) \<le> Suc mx \<Longrightarrow>
   res \<noteq> None \<and> (res = Some ErrTooLong \<or> (\<exists>tok. last (trace s') = EvProcess rt url tok res))"
proof (induction env rt url sc s arbitrary: res s' rule: mainWrapper_scan.induct)
  case (1 env rt url sc s)
  obtain t sc' where sc: "Scan sc = (t, sc')" by (cases "Scan sc")
  have ne: "input sc \<noteq> []" using "1.prems"(2) by auto
  show ?case
  proof (cases t)
    case None
    with sc ne have e: "Err sc' = Some ErrTooLong"
      by (auto simp: Scan_def Let_def Err_def split: if_splits)
    from "1.prems"(1) sc None have "res = Err sc'"
      by (subst (asm) mainWrapper_scan.simps) (auto simp: call_eq)
    with e show ?thesis by simp
  next
    case (Some tok)
    define p where "p = fst (call (Process env rt url tok) (EvProcess rt url tok) s)"
    define s1 where "s1 = snd (call (Process env rt url tok) (EvProcess rt url tok) s)"
    have t1: "trace s1 = trace s @ [EvProcess rt url tok p]"
      by (simp_all add: s1_def p_def call_eq)
    show ?thesis
    proof (cases p)
      case (Some e)
      with "1.prems"(1) sc \<open>t = Some tok\<close> have "res = Some e" "s' = s1"
        by (subst (asm) mainWrapper_scan.simps; auto simp: p_def s1_def split: prod.splits)+
      then show ?thesis using t1 Some by auto
    next
      case None
      with "1.prems"(1) sc \<open>t = Some tok\<close> have rec: "mainWrapper_scan env rt url sc' s1 = (res, s')"
        by (subst (asm) mainWrapper_scan.simps) (auto simp: p_def s1_def split: prod.splits)
      from sc \<open>t = Some tok\<close> have sc': "input sc' = drop 1 (dropWhile (\<lambda>c. c \<noteq> LF) (input sc))"
        "bufLen sc' = bufLen sc" "maxTokenSz sc' = maxTokenSz sc"
        and short: "length (takeWhile (\<lambda>c. c \<noteq> LF) (input sc)) < max (bufLen sc) (maxTokenSz sc)"
        by (auto simp: Scan_def Let_def split: if_splits)
      from short "1.prems"(3) have "\<not> mx < 0 + length (takeWhile (\<lambda>c. c \<noteq> LF) (input sc))"
        by arith
      with "1.prems"(2) have long': "record_longer mx 0 (input sc')"
        unfolding sc' by (subst (asm) record_longer_line) simp
      show ?thesis
        by (rule "1.IH" [OF _ _ _ _ rec long', of "Some tok" tok p])
           (use None sc \<open>t = Some tok\<close> "1.prems"(3) sc' in \<open>simp_all add: prod_eq_iff p_def s1_def\<close>)
    qed
  qed
qed

lemma dl_okD:
  assumes "dl_ok urls res evs"
  shows "list_all dl_event evs" "list_all quiet (butlast evs)"
    "evs = [] \<Longrightarrow> res = None" "evs \<noteq> [] \<Longrightarrow> final_error (last evs) = res"
    "res = None \<Longrightarrow> okURLs evs = urls" "\<exists>rest. urls = okURLs evs @ rest"
    "evs \<noteq> [] \<Longrightarrow> scan_event (last evs) \<Longrightarrow> \<exists>u r. lastGet evs = Some (u, Inr r)"
    "evs \<noteq> [] \<Longrightarrow> \<not> scan_event (last evs) \<Longrightarrow> res \<noteq> None"
    "after_oversize res evs" "res = None \<Longrightarrow> scannedURLs evs = urls"
  using assms by (auto simp: dl_ok_def split: if_splits)

subsection \<open>The download loops\<close>

lemma okURLs_append: "okURLs (xs @ ys) = okURLs xs @ okURLs ys"
  by (induction xs rule: okURLs.induct) auto

lemma okURLs_silent: "list_all silent xs \<Longrightarrow> okURLs xs = []"
  by (induction xs rule: okURLs.induct) (auto simp: silent_def)

lemma okURLs_scan: "list_all scan_event xs \<Longrightarrow> okURLs xs = []"
  by (induction xs rule: okURLs.induct) auto

lemma scannedURLs_append: "scannedURLs (xs @ ys) = scannedURLs xs @ scannedURLs ys"
  by (induction xs rule: scannedURLs.induct) auto

lemma scannedURLs_fetch: "list_all fetch_event xs \<Longrightarrow> scannedURLs xs = []"
  by (induction xs rule: scannedURLs.induct) auto

lemma lastGet_append:
  "lastGet (xs @ ys) = (case lastGet ys of Some p \<Rightarrow> Some p | None \<Rightarrow> lastGet xs)"
  by (induction xs) (auto split: option.splits)

lemma lastGet_scan: "list_all scan_event xs \<Longrightarrow> lastGet xs = None"
  by (induction xs) (auto split: option.splits event.splits)

lemma after_oversize_silent:
  "list_all silent xs \<Longrightarrow> after_oversize res (xs @ ys) = after_oversize res ys"
  by (induction xs rule: okURLs.induct) (auto simp: silent_def)

lemma after_oversize_scan: "list_all scan_event xs \<Longrightarrow> after_oversize res xs"
  by (induction xs rule: okURLs.induct) auto

lemma after_oversize_None:
  "after_oversize None xs \<Longrightarrow> after_oversize res (xs @ ys) = after_oversize res ys"
  by (induction xs rule: okURLs.induct) (auto split: if_splits)

lemma dl_ok_nil: "dl_ok [] None []"
  by (simp add: dl_ok_def)

lemma quiet_last:
  "list_all quiet (butlast evs) \<Longrightarrow> evs \<noteq> [] \<Longrightarrow> final_error (last evs) = None
   \<Longrightarrow> list_all quiet evs"
proof -
  assume a: "list_all quiet (butlast evs)" "evs \<noteq> []" "final_error (last evs) = None"
  have "failure_of (last evs) = None"
    using a(3) by (cases "last evs") auto
  then have "list_all quiet (butlast evs @ [last evs])"
    using a(1) by (simp add: quiet_def)
  then show ?thesis using a(2) by simp
qed

lemma dl_ok_seq:
  assumes 1: "dl_ok us1 None e1" and 2: "dl_ok us2 res e2"
  shows "dl_ok (us1 @ us2) res (e1 @ e2)"
proof (cases "e2 = []")
  case True
  with dl_okD(3) [OF 2] have "res = None" by simp
  with 1 2 True show ?thesis
    by (auto simp: dl_ok_def split: if_splits)
next
  case False
  have q1: "list_all quiet e1"
    using dl_okD(2,4) [OF 1] quiet_last [of e1] by (cases "e1 = []") auto
  have ao: "after_oversize res (e1 @ e2)"
    using dl_okD(9) [OF 1] dl_okD(9) [OF 2] by (simp add: after_oversize_None)
  have lg: "scan_event (last e2) \<Longrightarrow> \<exists>u r. lastGet (e1 @ e2) = Some (u, Inr r)"
    using dl_okD(7) [OF 2 False] by (auto simp: lastGet_append)
  have u: "if res = None then okURLs (e1 @ e2) = us1 @ us2 \<and> scannedURLs (e1 @ e2) = us1 @ us2
           else \<exists>rest. us1 @ us2 = okURLs (e1 @ e2) @ rest"
    using dl_okD(5,10) [OF 1] dl_okD(5,6,10) [OF 2]
    by (auto simp: okURLs_append scannedURLs_append)
  show ?thesis
    unfolding dl_ok_def
    using False q1 ao lg u dl_okD(1) [OF 1] dl_okD(1,2,4,8) [OF 2]
    by (simp add: butlast_append)
qed

lemma dl_ok_first:
  assumes "dl_ok us1 (Some e) e1"
  shows "dl_ok (us1 @ us2) (Some e) e1"
proof -
  from dl_okD(6) [OF assms] obtain rest where "us1 = okURLs e1 @ rest" by blast
  then have "us1 @ us2 = okURLs e1 @ (rest @ us2)" by simp
  then have "\<exists>r. us1 @ us2 = okURLs e1 @ r" by blast
  with assms show ?thesis
    by (simp add: dl_ok_def)
qed

lemma fetch_event_quiet_butlast:
  "list_all silent xs \<Longrightarrow> list_all quiet xs"
  by (induction xs) (auto simp: silent_def quiet_def)

lemma dl_ok_fetch_fail:
  assumes "fetch_ok url (Inl e) F"
  shows "dl_ok [url] (Some e) F"
proof -
  from assms have ne: "F \<noteq> []" and fe: "list_all fetch_event F" and
    sil: "list_all silent (butlast F)" and fin: "final_error (last F) = Some e"
    by (auto simp: fetch_ok_def)
  have F: "F = butlast F @ [last F]" using ne by simp
  have ok: "okURLs F = []"
    using fin by (subst F, cases "last F" rule: final_error.cases)
       (auto simp: okURLs_append okURLs_silent [OF sil])
  have ns: "\<not> scan_event (last F)"
    using fe ne by (subst (asm) F, cases "last F") auto
  have ao: "after_oversize (Some e) F"
    using fin by (subst F, cases "last F" rule: final_error.cases)
      (auto simp: after_oversize_silent [OF sil])
  show ?thesis
    using ne fe sil fin ok ns ao
    by (auto simp: dl_ok_def dl_event_def fetch_event_quiet_butlast
          intro: list.pred_mono_strong)
qed

lemma dl_ok_url:
  assumes F: "fetch_ok url (Inr r) F" and S: "scan_ok url res S"
    and O: "hasOversizeRecord r \<Longrightarrow>
      res = Some ErrTooLong \<or> (\<exists>tok e. res = Some e \<and> last S = EvProcess rt url tok (Some e))"
  shows "dl_ok [url] res (F @ S)"
proof -
  from F have ne: "F \<noteq> []" and fe: "list_all fetch_event F" and
    sil: "list_all silent (butlast F)" and l: "last F = EvGetData url (Inr r)"
    by (auto simp: fetch_ok_def)
  have Feq: "F = butlast F @ [EvGetData url (Inr r)]"
    using ne l by (metis append_butlast_last_id)
  from S have sne: "S \<noteq> []" and se: "list_all scan_event S" and
    sq: "list_all quiet (butlast S)" and fin: "final_error (last S) = res"
    by (auto simp: scan_ok_def)
  have qF: "list_all quiet F"
    by (subst Feq) (simp add: fetch_event_quiet_butlast [OF sil] quiet_def)
  have ok: "okURLs (F @ S) = [url]"
    by (subst Feq) (simp add: okURLs_append okURLs_silent [OF sil] okURLs_scan [OF se])
  have sc: "scannedURLs (F @ S) = (if res = None then [url] else [])"
    using S by (simp add: scannedURLs_append scannedURLs_fetch [OF fe] scan_ok_def)
  have lg: "lastGet (F @ S) = Some (url, Inr r)"
    by (subst Feq) (simp add: lastGet_append lastGet_scan [OF se])
  have ao: "after_oversize res (F @ S)"
    using O sne se by (subst Feq) (auto simp: after_oversize_silent [OF sil] after_oversize_scan)
  have de: "list_all dl_event (F @ S)"
    using fe se by (auto simp: dl_event_def intro: list.pred_mono_strong)
  have "list_all scan_event (butlast S @ [last S])"
    using se sne by simp
  then have sl: "scan_event (last S)"
    by simp
  show ?thesis
    unfolding dl_ok_def using sne qF sq fin ok lg ao de sl sc
    by (simp add: butlast_append)
qed

lemma Buffer_NewScanner:
  "input (Buffer (NewScanner r) n mx) = content r"
  "bufLen (Buffer (NewScanner r) n mx) = n"
  "maxTokenSz (Buffer (NewScanner r) n mx) = mx"
  by (simp_all add: Buffer_def NewScanner_def)

lemma urls_spec:
  "mainWrapper_urls env cfg rt urls s = (res, s') \<Longrightarrow>
   \<exists>evs. trace s' = trace s @ evs \<and> transactionTime s' = transactionTime s \<and>
         dl_ok urls res evs"
proof (induction urls arbitrary: s res s')
  case Nil
  then show ?case by (simp add: dl_ok_nil)
next
  case (Cons url urls)
  obtain fr s1 where f: "getDataOrExit env url (clientID cfg) (clientSecret cfg) s = (fr, s1)"
    by (cases "getDataOrExit env url (clientID cfg) (clientSecret cfg) s")
  from fetch_spec [OF f] obtain F where F: "trace s1 = trace s @ F"
    "transactionTime s1 = transactionTime s" "fetch_ok url fr F" by blast
  show ?case
  proof (cases fr)
    case (Inl e)
    with Cons.prems f have "res = Some e" "s' = s1" by auto
    with F Inl dl_ok_first [OF dl_ok_fetch_fail, of url e F urls] show ?thesis
      by auto
  next
    case (Inr r)
    define sc where "sc = Buffer (NewScanner r) initialBufferSize maxTokenSize"
    obtain sr s2 where sc: "mainWrapper_scan env rt url sc (defer_call (DeferCloseReader r) s1)
        = (sr, s2)"
      by (cases "mainWrapper_scan env rt url sc (defer_call (DeferCloseReader r) s1)")
    from scan_spec [OF sc] obtain S where S: "trace s2 = trace s1 @ S"
      "transactionTime s2 = transactionTime s1" "scan_ok url sr S"
      by (auto simp: defer_call_def)
    have sne: "S \<noteq> []" using S(3) by (simp add: scan_ok_def)
    have O: "hasOversizeRecord r \<Longrightarrow>
      sr = Some ErrTooLong \<or> (\<exists>tok e. sr = Some e \<and> last S = EvProcess rt url tok (Some e))"
    proof -
      assume "hasOversizeRecord r"
      then have "record_longer maxTokenSize 0 (input sc)"
        by (simp add: hasOversizeRecord_def sc_def Buffer_NewScanner)
      moreover have "max (bufLen sc) (maxTokenSz sc) \<le> Suc maxTokenSize"
        by (simp add: sc_def Buffer_NewScanner initialBufferSize_def maxTokenSize_def)
      ultimately have "sr \<noteq> None \<and>
          (sr = Some ErrTooLong \<or> (\<exists>tok. last (trace s2) = EvProcess rt url tok sr))"
        by (rule scan_oversize [OF sc])
      then show ?thesis using S(1) sne by auto
    qed
    have one: "dl_ok [url] sr (F @ S)"
      using F(3) S(3) O unfolding Inr by (rule dl_ok_url)
    show ?thesis
    proof (cases sr)
      case (Some e)
      with Cons.prems f Inr sc have "res = Some e" "s' = s2" by (auto simp: sc_def)
      with dl_ok_first [of "[url]" e "F @ S" urls] one Some F S show ?thesis
        by auto
    next
      case None
      with Cons.prems f Inr sc have "mainWrapper_urls env cfg rt urls s2 = (res, s')"
        by (auto simp: sc_def)
      from Cons.IH [OF this] obtain R where R: "trace s' = trace s2 @ R"
        "transactionTime s' = transactionTime s2" "dl_ok urls res R" by blast
      from dl_ok_seq [OF one [unfolded None] R(3)] F S R show ?thesis
        by (intro exI [of _ "(F @ S) @ R"]) simp
    qed
  qed
qed

lemma download_spec:
  "mainWrapper_download env cfg entries s = (res, s') \<Longrightarrow>
   \<exists>evs. trace s' = trace s @ evs \<and> transactionTime s' = transactionTime s \<and>
         dl_ok (concat (map snd entries)) res evs"
proof (induction entries arbitrary: s res s')
  case Nil
  then show ?case by (simp add: dl_ok_nil)
next
  case (Cons entry entries)
  obtain rt urls where entry: "entry = (rt, urls)" by (cases entry)
  obtain ur s1 where u: "mainWrapper_urls env cfg rt urls s = (ur, s1)"
    by (cases "mainWrapper_urls env cfg rt urls s")
  from urls_spec [OF u] obtain U where U: "trace s1 = trace s @ U"
    "transactionTime s1 = transactionTime s" "dl_ok urls ur U" by blast
  show ?case
  proof (cases ur)
    case (Some e)
    with Cons.prems u entry have "res = Some e" "s' = s1" by auto
    with dl_ok_first [of urls e U "concat (map snd entries)"] U Some entry show ?thesis
      by auto
  next
    case None
    with Cons.prems u entry have "mainWrapper_download env cfg entries s1 = (res, s')"
      by auto
    from Cons.IH [OF this] obtain R where R: "trace s' = trace s1 @ R"
      "transactionTime s' = transactionTime s1" "dl_ok (concat (map snd entries)) res R"
      by blast
    from dl_ok_seq [OF U(3) [unfolded None] R(3)] U R entry show ?thesis
      by (intro exI [of _ "U @ R"]) simp
  qed
qed

subsection \<open>Every record of a downloaded stream is processed\<close>

lemma split_lines_step:
  "acc @ cs \<noteq> [] \<Longrightarrow>
   split_lines acc cs =
     dropCR (acc @ takeWhile (\<lambda>c. c \<noteq> LF) cs) #
     split_lines [] (drop 1 (dropWhile (\<lambda>c. c \<noteq> LF) cs))"
  by (induction cs arbitrary: acc) auto

lemma work_append: "work (a @ b) = work a @ work b"
  by (simp add: work_def)

lemma okStreams_append: "okStreams (a @ b) = okStreams a @ okStreams b"
  by (induction a rule: okStreams.induct) auto

lemma scan_work:
  "mainWrapper_scan env rt url sc s = (res, s') \<Longrightarrow>
   \<exists>evs toks rest. trace s' = trace s @ evs \<and> okStreams evs = [] \<and>
     work evs = map (\<lambda>tok. EvProcess rt url tok None) toks @
                (if res = None then [EvErr url None] else []) \<and>
     toks @ rest = split_lines [] (input sc) \<and> (res = None \<longrightarrow> rest = [])"
proof (induction env rt url sc s arbitrary: res s' rule: mainWrapper_scan.induct)
  case (1 env rt url sc s)
  obtain t sc' where sc: "Scan sc = (t, sc')" by (cases "Scan sc")
  show ?case
  proof (cases t)
    case None
    with "1.prems" sc have r: "res = Err sc'" "trace s' = trace s @ [EvErr url (Err sc')]"
      by (subst (asm) mainWrapper_scan.simps; auto simp: call_eq)+
    show ?thesis
    proof (cases "res")
      case None
      with r sc \<open>t = None\<close> have "input sc = []"
        by (auto simp: Scan_def Err_def Let_def split: if_splits)
      show ?thesis
        apply (rule exI [of _ "[EvErr url (Err sc')]"])
        apply (rule exI [of _ "[]"])
        apply (rule exI [of _ "[]"])
        using r None \<open>input sc = []\<close> by (simp add: work_def)
    next
      case (Some e)
      with r have es: "Err sc' = Some e" by simp
      show ?thesis
        apply (rule exI [of _ "[EvErr url (Err sc')]"])
        apply (rule exI [of _ "[]"])
        apply (rule exI [of _ "split_lines [] (input sc)"])
        using r(2) Some es by (simp add: work_def)
    qed
  next
    case (Some tok)
    with sc have ne: "input sc \<noteq> []" and
      tok: "tok = dropCR (takeWhile (\<lambda>c. c \<noteq> LF) (input sc))" and
      sc': "input sc' = drop 1 (dropWhile (\<lambda>c. c \<noteq> LF) (input sc))"
      by (auto simp: Scan_def Let_def split: if_splits)
    have step: "split_lines [] (input sc) = tok # split_lines [] (input sc')"
      using split_lines_step [of "[]" "input sc"] ne tok sc' by simp
    define p where "p = fst (call (Process env rt url tok) (EvProcess rt url tok) s)"
    define s1 where "s1 = snd (call (Process env rt url tok) (EvProcess rt url tok) s)"
    have t1: "trace s1 = trace s @ [EvProcess rt url tok p]"
      by (simp_all add: s1_def p_def call_eq)
    show ?thesis
    proof (cases p)
      case (Some e)
      with "1.prems" sc \<open>t = Some tok\<close> have "res = Some e" "s' = s1"
        by (subst (asm) mainWrapper_scan.simps; auto simp: p_def s1_def split: prod.splits)+
      then show ?thesis
        apply -
        apply (rule exI [of _ "[EvProcess rt url tok p]"])
        apply (rule exI [of _ "[]"])
        apply (rule exI [of _ "split_lines [] (input sc)"])
        using t1 Some by (simp add: work_def)
    next
      case None
      with "1.prems" sc \<open>t = Some tok\<close> have rec: "mainWrapper_scan env rt url sc' s1 = (res, s')"
        by (subst (asm) mainWrapper_scan.simps) (auto simp: p_def s1_def split: prod.splits)
      have "\<exists>evs toks rest. trace s' = trace s1 @ evs \<and> okStreams evs = [] \<and>
         work evs = map (\<lambda>tok. EvProcess rt url tok None) toks @
                (if res = None then [EvErr url None] else []) \<and>
         toks @ rest = split_lines [] (input sc') \<and> (res = None \<longrightarrow> rest = [])"
        by (rule "1.IH" [OF _ _ _ _ rec, of "Some tok" tok p])
           (use None sc \<open>t = Some tok\<close> in \<open>simp_all add: prod_eq_iff p_def s1_def\<close>)
      then obtain evs toks rest where evs: "trace s' = trace s1 @ evs" "okStreams evs = []"
         "work evs = map (\<lambda>tok. EvProcess rt url tok None) toks @
                (if res = None then [EvErr url None] else [])"
         "toks @ rest = split_lines [] (input sc')" "res = None \<longrightarrow> rest = []" by blast
      show ?thesis
        apply (rule exI [of _ "EvProcess rt url tok p # evs"])
        apply (rule exI [of _ "tok # toks"])
        apply (rule exI [of _ rest])
        using evs t1 None step
        by (simp add: work_def)
    qed
  qed
qed

lemma fetch_work:
  assumes "fetch_ok url res F"
  shows "work F = (case res of Inr r \<Rightarrow> [EvGetData url (Inr r)] | Inl e \<Rightarrow> [])"
    and "okStreams F = (case res of Inr r \<Rightarrow> [r] | Inl e \<Rightarrow> [])"
proof -
  from assms have ne: "F \<noteq> []" and fe: "list_all fetch_event F" and
    sil: "list_all silent (butlast F)"
    by (auto simp: fetch_ok_def)
  have Feq: "F = butlast F @ [last F]" using ne by simp
  have w0: "list_all silent B \<Longrightarrow> list_all fetch_event B \<Longrightarrow> work B = [] \<and> okStreams B = []"
    for B
  proof (induction B)
    case Nil
    then show ?case by (simp add: work_def)
  next
    case (Cons ev B)
    then show ?case
      by (cases ev rule: done_event.cases) (auto simp: work_def silent_def)
  qed
  have "list_all fetch_event (butlast F @ [last F])"
    using fe ne by simp
  then have feb: "list_all fetch_event (butlast F)" "fetch_event (last F)"
    by simp_all
  note b = w0 [OF sil feb(1)]
  have l: "work [last F] = (case res of Inr r \<Rightarrow> [EvGetData url (Inr r)] | Inl e \<Rightarrow> []) \<and>
           okStreams [last F] = (case res of Inr r \<Rightarrow> [r] | Inl e \<Rightarrow> [])"
    using assms feb(2)
    by (cases "last F" rule: done_event.cases) (auto simp: fetch_ok_def work_def split: sum.splits)
  have "work F = work (butlast F) @ work [last F]"
    by (subst Feq) (simp only: work_append)
  moreover have "okStreams F = okStreams (butlast F) @ okStreams [last F]"
    by (subst Feq) (simp only: okStreams_append)
  ultimately show "work F = (case res of Inr r \<Rightarrow> [EvGetData url (Inr r)] | Inl e \<Rightarrow> [])"
    and "okStreams F = (case res of Inr r \<Rightarrow> [r] | Inl e \<Rightarrow> [])"
    using b l by simp_all
qed

lemma expected_nil: "expected ps [] = []"
  by (simp add: expected_def)

lemma expected_append:
  "length ps = length rs \<Longrightarrow>
   expected (ps @ ps') (rs @ rs') = expected ps rs @ expected ps' rs'"
  by (simp add: expected_def)

lemma expected_short:
  "length rs \<le> length ps \<Longrightarrow> expected (ps @ ps') rs = expected ps rs"
  by (simp add: expected_def zip_append1)

lemma dl_work_nil: "dl_work [] None []"
  by (simp add: dl_work_def work_def expected_def)

lemma dl_work_first:
  "dl_work ps (Some e) evs \<Longrightarrow> dl_work (ps @ ps') (Some e) evs"
  by (auto simp: dl_work_def expected_short)

lemma dl_work_seq:
  assumes "dl_work ps None a" "dl_work ps' res b"
  shows "dl_work (ps @ ps') res (a @ b)"
proof -
  from assms(1) have a: "length (okStreams a) = length ps" "work a = expected ps (okStreams a)"
    by (auto simp: dl_work_def)
  from assms(2) obtain rest where b: "length (okStreams b) \<le> length ps'"
    "work b @ rest = expected ps' (okStreams b)"
    "res = None \<longrightarrow> length (okStreams b) = length ps' \<and> work b = expected ps' (okStreams b)"
    by (auto simp: dl_work_def)
  have e: "expected (ps @ ps') (okStreams (a @ b)) =
        expected ps (okStreams a) @ expected ps' (okStreams b)"
    by (simp add: okStreams_append expected_append a(1))
  show ?thesis
    unfolding dl_work_def e
    using a b by (auto simp: work_append okStreams_append)
qed

lemma dl_work_fetch_fail:
  "fetch_ok url (Inl e) F \<Longrightarrow> dl_work [(rt, url)] (Some e) F"
  by (simp add: dl_work_def fetch_work expected_nil)

lemma dl_work_url:
  assumes F: "fetch_ok url (Inr r) F" and S: "okStreams S = []"
    "work S = map (\<lambda>tok. EvProcess rt url tok None) toks @
                (if res = None then [EvErr url None] else [])"
    "toks @ rest = records r" "res = None \<longrightarrow> rest = []"
  shows "dl_work [(rt, url)] res (F @ S)"
proof -
  have w: "work (F @ S) = EvGetData url (Inr r) # map (\<lambda>tok. EvProcess rt url tok None) toks @
                (if res = None then [EvErr url None] else [])"
    using fetch_work [OF F] S by (simp add: work_append)
  have o: "okStreams (F @ S) = [r]"
    using fetch_work [OF F] S by (simp add: okStreams_append)
  have x: "expected [(rt, url)] [r] =
       EvGetData url (Inr r) # map (\<lambda>tok. EvProcess rt url tok None) (toks @ rest) @
         [EvErr url None]"
    by (simp add: expected_def stream_events_def S(3))
  show ?thesis
    unfolding dl_work_def o w x using S(4)
    by (cases "res = None") auto
qed

lemma urls_work:
  "mainWrapper_urls env cfg rt urls s = (res, s') \<Longrightarrow>
   \<exists>evs. trace s' = trace s @ evs \<and> dl_work (map (Pair rt) urls) res evs"
proof (induction urls arbitrary: s res s')
  case Nil
  then show ?case by (simp add: dl_work_nil)
next
  case (Cons url urls)
  obtain fr s1 where f: "getDataOrExit env url (clientID cfg) (clientSecret cfg) s = (fr, s1)"
    by (cases "getDataOrExit env url (clientID cfg) (clientSecret cfg) s")
  from fetch_spec [OF f] obtain F where F: "trace s1 = trace s @ F" "fetch_ok url fr F"
    by blast
  show ?case
  proof (cases fr)
    case (Inl e)
    with Cons.prems f have "res = Some e" "s' = s1" by auto
    with F Inl dl_work_first [OF dl_work_fetch_fail, of url e F rt "map (Pair rt) urls"]
    show ?thesis by auto
  next
    case (Inr r)
    define sc where "sc = Buffer (NewScanner r) initialBufferSize maxTokenSize"
    obtain sr s2 where sc: "mainWrapper_scan env rt url sc (defer_call (DeferCloseReader r) s1)
        = (sr, s2)"
      by (cases "mainWrapper_scan env rt url sc (defer_call (DeferCloseReader r) s1)")
    from scan_work [OF sc] obtain S toks rest where S: "trace s2 = trace s1 @ S"
      "okStreams S = []"
      "work S = map (\<lambda>tok. EvProcess rt url tok None) toks @
                (if sr = None then [EvErr url None] else [])"
      "toks @ rest = records r" "sr = None \<longrightarrow> rest = []"
      by (auto simp: defer_call_def records_def sc_def Buffer_NewScanner)
    have one: "dl_work [(rt, url)] sr (F @ S)"
      using F(2) S(2-5) unfolding Inr by (rule dl_work_url)
    show ?thesis
    proof (cases sr)
      case (Some e)
      with Cons.prems f Inr sc have "res = Some e" "s' = s2" by (auto simp: sc_def)
      with dl_work_first [of "[(rt, url)]" e "F @ S" "map (Pair rt) urls"] one Some F S
      show ?thesis by auto
    next
      case None
      with Cons.prems f Inr sc have "mainWrapper_urls env cfg rt urls s2 = (res, s')"
        by (auto simp: sc_def)
      from Cons.IH [OF this] obtain R where R: "trace s' = trace s2 @ R"
        "dl_work (map (Pair rt) urls) res R" by blast
      from dl_work_seq [OF one [unfolded None] R(2)] F S R show ?thesis
        by (intro exI [of _ "(F @ S) @ R"]) simp
    qed
  qed
qed

lemma download_work:
  "mainWrapper_download env cfg entries s = (res, s') \<Longrightarrow>
   \<exists>evs. trace s' = trace s @ evs \<and> dl_work (targets entries) res evs"
proof (induction entries arbitrary: s res s')
  case Nil
  then show ?case by (simp add: dl_work_nil targets_def)
next
  case (Cons entry entries)
  obtain rt urls where entry: "entry = (rt, urls)" by (cases entry)
  obtain ur s1 where u: "mainWrapper_urls env cfg rt urls s = (ur, s1)"
    by (cases "mainWrapper_urls env cfg rt urls s")
  from urls_work [OF u] obtain U where U: "trace s1 = trace s @ U"
    "dl_work (map (Pair rt) urls) ur U" by blast
  have t: "targets (entry # entries) = map (Pair rt) urls @ targets entries"
    by (simp add: targets_def entry)
  show ?case
  proof (cases ur)
    case (Some e)
    with Cons.prems u entry have "res = Some e" "s' = s1" by auto
    with dl_work_first [of "map (Pair rt) urls" e U "targets entries"] U Some t show ?thesis
      by auto
  next
    case None
    with Cons.prems u entry have "mainWrapper_download env cfg entries s1 = (res, s')"
      by auto
    from Cons.IH [OF this] obtain R where R: "trace s' = trace s1 @ R"
      "dl_work (targets entries) res R"
      by blast
    from dl_work_seq [OF U(2) [unfolded None] R(2)] U R t show ?thesis
      by (intro exI [of _ "U @ R"]) simp
  qed
qed

subsection \<open>The pipeline, the monitor and the whole run\<close>

lemma commit_spec:
  assumes "mainWrapper_commit env cfg st js s = (out, s')"
  shows "\<exists>evs. trace s' = trace s @ evs \<and> transactionTime s' = transactionTime s \<and>
           commit_ok js evs out"
proof -
  obtain res s1 where d: "mainWrapper_download env cfg (ResultURLs js) s = (res, s1)"
    by (cases "mainWrapper_download env cfg (ResultURLs js) s")
  from download_spec [OF d] obtain dl where dl: "trace s1 = trace s @ dl"
    "transactionTime s1 = transactionTime s" "dl_ok (concat (map snd (ResultURLs js))) res dl"
    by blast
  have "\<exists>fin. trace s' = trace s1 @ fin \<and> transactionTime s' = transactionTime s1 \<and>
          finish_ok (TransactionTime js) res fin out"
    using assms d
    by (auto simp: mainWrapper_commit_def finish_ok_def call_eq split: option.splits)
  then obtain fin where fin: "trace s' = trace s1 @ fin"
    "transactionTime s' = transactionTime s1" "finish_ok (TransactionTime js) res fin out"
    by blast
  from download_work [OF d] dl(1) have dw: "dl_work (targets (ResultURLs js)) res dl"
    by auto
  have "commit_ok js (dl @ fin) out"
    unfolding commit_ok_def using dl(3) fin(3) dw by blast
  then show ?thesis using dl fin by (intro exI [of _ "dl @ fin"]) simp
qed

lemma pipeline_ok_fail:
  "list_all build_event b \<Longrightarrow> pipeline_ok js b (Return (Some e))"
  unfolding pipeline_ok_def by (intro exI [of _ b] exI [of _ "[]"]) simp

lemma pipeline_spec:
  assumes "mainWrapper_pipeline env cfg st js s = (out, s')"
  shows "\<exists>evs. trace s' = trace s @ evs \<and> transactionTime s' = transactionTime s \<and>
           pipeline_ok js evs out"
proof -
  define step1 where "step1 =
    (if outputPrefix cfg \<noteq> [] then
       (case filepath_Split (outputPrefix cfg) of
          (directory, filePrefix) \<Rightarrow>
            (case call (NewNDJSONSink env directory filePrefix)
                    (EvNewNDJSONSink directory filePrefix) s of
               (Some e, s1) \<Rightarrow> (Inl (Errorf ''error making ndjson sink: '' e), s1)
             | (None, s1) \<Rightarrow> (Inr [NDJSONSink directory filePrefix], s1)))
     else (Inr [], s))"
  obtain r1 s1 where r1: "step1 = (r1, s1)" by (cases step1)
  have b1: "\<exists>b. trace s1 = trace s @ b \<and> transactionTime s1 = transactionTime s \<and>
      list_all build_event b"
    using r1 unfolding step1_def
    by (auto simp: call_eq split: if_splits prod.splits option.splits)
  then obtain b1 where b1: "trace s1 = trace s @ b1" "transactionTime s1 = transactionTime s"
    "list_all build_event b1" by blast
  show ?thesis
  proof (cases r1)
    case (Inl e)
    with assms r1 have "out = Return (Some e)" "s' = s1"
      by (auto simp: mainWrapper_pipeline_def step1_def [symmetric] Let_def)
    with b1 show ?thesis
      by (intro exI [of _ b1]) (simp add: pipeline_ok_fail)
  next
    case (Inr sinks)
    define step2 where "step2 =
      (if enableFHIRStore cfg then
         (case call (NewFHIRStoreSink env cfg) EvNewFHIRStoreSink s1 of
            (Some e, s2) \<Rightarrow> (Inl (Errorf ''error making FHIR Store sink: '' e), s2)
          | (None, s2) \<Rightarrow> (Inr (sinks @ [FHIRStoreSink]), s2))
       else (Inr sinks, s1))"
    obtain r2 s2 where r2: "step2 = (r2, s2)" by (cases step2)
    have "\<exists>b. trace s2 = trace s1 @ b \<and> transactionTime s2 = transactionTime s1 \<and>
        list_all build_event b"
      using r2 unfolding step2_def
      by (auto simp: call_eq split: if_splits prod.splits option.splits)
    then obtain b2 where b2: "trace s2 = trace s1 @ b2"
      "transactionTime s2 = transactionTime s1" "list_all build_event b2" by blast
    have o2: "(out, s') = (case r2 of Inl e \<Rightarrow> (Return (Some e), s2)
       | Inr sinks' \<Rightarrow>
               (case call (NewPipeline env (if rectify cfg then [BCDARectifyProcessor] else []) sinks')
                       (EvNewPipeline (if rectify cfg then [BCDARectifyProcessor] else []) sinks') s2 of
                  (Some e, s3) \<Rightarrow> (Return (Some (Errorf ''error making output pipeline: '' e)), s3)
                | (None, s3) \<Rightarrow> mainWrapper_commit env cfg st js s3))"
      using assms r1 Inr r2
      by (simp add: mainWrapper_pipeline_def step1_def [symmetric] step2_def [symmetric] Let_def)
    show ?thesis
    proof (cases r2)
      case (Inl e)
      with o2 have "out = Return (Some e)" "s' = s2" by auto
      with b1 b2 show ?thesis
        by (intro exI [of _ "b1 @ b2"]) (simp add: pipeline_ok_fail)
    next
      case (Inr sinks')
      define ps where "ps = (if rectify cfg then [BCDARectifyProcessor] else [])"
      define p where "p = fst (call (NewPipeline env ps sinks') (EvNewPipeline ps sinks') s2)"
      define s3 where "s3 = snd (call (NewPipeline env ps sinks') (EvNewPipeline ps sinks') s2)"
      have t3: "trace s3 = trace s2 @ [EvNewPipeline ps sinks' p]"
        "transactionTime s3 = transactionTime s2"
        by (simp_all add: s3_def p_def call_eq)
      show ?thesis
      proof (cases p)
        case (Some e)
        with o2 Inr have "out = Return (Some (Errorf ''error making output pipeline: '' e))"
          "s' = s3"
          by (auto simp: ps_def [symmetric] p_def s3_def split: prod.splits)
        with b1 b2 t3 show ?thesis
          by (intro exI [of _ "b1 @ b2 @ [EvNewPipeline ps sinks' p]"])
             (simp add: pipeline_ok_fail)
      next
        case None
        with o2 Inr have "mainWrapper_commit env cfg st js s3 = (out, s')"
          by (auto simp: ps_def [symmetric] p_def s3_def split: prod.splits)
        from commit_spec [OF this] obtain c where c: "trace s' = trace s3 @ c"
          "transactionTime s' = transactionTime s3" "commit_ok js c out" by blast
        have "pipeline_ok js ((b1 @ b2 @ [EvNewPipeline ps sinks' p]) @ c) out"
          unfolding pipeline_ok_def using b1(3) b2(3) c(3)
          by (intro exI [of _ "b1 @ b2 @ [EvNewPipeline ps sinks' p]"] exI [of _ c]) simp
        with b1 b2 t3 c show ?thesis
          by (intro exI [of _ "(b1 @ b2 @ [EvNewPipeline ps sinks' p]) @ c"]) simp
      qed
    qed
  qed
qed

lemma foldl_last: "foldl (\<lambda>_ r. Some r) None rs = (if rs = [] then None else Some (last rs))"
  by (induction rs rule: rev_induct) auto

lemma monitor_spec:
  assumes "mainWrapper_monitor env cfg st jobURL s = (out, s')"
    and "transactionTime s = None"
  shows "\<exists>evs. trace s' = trace s @ evs \<and> monitor_ok evs out (transactionTime s')"
proof -
  define rs where "rs = fst (call (MonitorJobStatus env jobURL) (EvMonitorJobStatus jobURL) s)"
  define s1 where "s1 = snd (call (MonitorJobStatus env jobURL) (EvMonitorJobStatus jobURL) s)"
  have t1: "trace s1 = trace s @ [EvMonitorJobStatus jobURL rs]"
    "transactionTime s1 = transactionTime s"
    by (simp_all add: s1_def rs_def call_eq)
  show ?thesis
  proof (cases "rs = [] \<or> \<not> IsComplete (Status (last rs))")
    case True
    with assms(1) have "s' = s1"
      "out = (if rs = [] then NilDereference else Return (Some timeoutError))"
      by (auto simp: mainWrapper_monitor_def foldl_last rs_def s1_def Let_def timeoutError_def
          split: prod.splits if_splits)
    with t1 True assms(2) show ?thesis
      by (intro exI [of _ "[EvMonitorJobStatus jobURL rs]"]) (auto simp: monitor_ok_def)
  next
    case False
    define js where "js = Status (last rs)"
    from False assms(1) have "mainWrapper_pipeline env cfg st js
        (Set_TransactionTime (TransactionTime js) s1) = (out, s')"
      by (auto simp: mainWrapper_monitor_def foldl_last rs_def s1_def Let_def js_def
          split: prod.splits if_splits)
    from pipeline_spec [OF this] obtain p where p:
      "trace s' = trace s1 @ EvSet (TransactionTime js) # p"
      "transactionTime s' = Some (TransactionTime js)" "pipeline_ok js p out"
      by (auto simp: Set_TransactionTime_def)
    with t1 False show ?thesis
      by (intro exI [of _ "EvMonitorJobStatus jobURL rs # EvSet (TransactionTime js) # p"])
         (auto simp: monitor_ok_def js_def)
  qed
qed

lemma getBulkFHIRClient_spec:
  "getBulkFHIRClient env cfg s = (r, s') \<Longrightarrow>
   \<exists>evs. trace s' = trace s @ evs \<and> transactionTime s' = transactionTime s \<and>
         list_all setup_event evs"
  by (auto simp: getBulkFHIRClient_def call_eq split: if_splits option.splits)

lemma getTransactionTimeStore_spec:
  "getTransactionTimeStore env cfg s = (r, s') \<Longrightarrow>
   \<exists>evs. trace s' = trace s @ evs \<and> transactionTime s' = transactionTime s \<and>
         list_all setup_event evs"
  by (auto simp: getTransactionTimeStore_def call_eq split: if_splits option.splits)

lemma body_ok_fail:
  "list_all setup_event b \<Longrightarrow> body_ok b (Return (Some e)) None"
  unfolding body_ok_def by (intro exI [of _ b] exI [of _ "[]"]) simp

lemma body_ok_monitor:
  "list_all setup_event b \<Longrightarrow> monitor_ok m out box \<Longrightarrow> body_ok (b @ m) out box"
  unfolding body_ok_def by (intro exI [of _ b] exI [of _ m]) simp

lemma body_spec:
  assumes "mainWrapper_body env cfg s = (out, s')" and tt: "transactionTime s = None"
  shows "\<exists>evs. trace s' = trace s @ evs \<and> body_ok evs out (transactionTime s')"
proof (cases "mainWrapper_flags cfg")
  case (Some e)
  with assms show ?thesis
    by (intro exI [of _ "[]"]) (auto simp: mainWrapper_body_def body_ok_fail)
next
  case None
  obtain c s1 where c: "getBulkFHIRClient env cfg s = (c, s1)"
    by (cases "getBulkFHIRClient env cfg s")
  from getBulkFHIRClient_spec [OF c] obtain b1 where b1: "trace s1 = trace s @ b1"
    "transactionTime s1 = transactionTime s" "list_all setup_event b1" by blast
  show ?thesis
  proof (cases c)
    case (Some e)
    with assms(1) None c have "out = Return (Some (Errorf ''Error making bulkfhir client: '' e))"
      "s' = s1" by (auto simp: mainWrapper_body_def)
    with b1 tt show ?thesis
      by (intro exI [of _ b1]) (simp add: body_ok_fail)
  next
    case cNone: None
    obtain st s2 where st: "getTransactionTimeStore env cfg (defer_call DeferClose s1) = (st, s2)"
      by (cases "getTransactionTimeStore env cfg (defer_call DeferClose s1)")
    from getTransactionTimeStore_spec [OF st] obtain b2 where b2: "trace s2 = trace s1 @ b2"
      "transactionTime s2 = transactionTime s1" "list_all setup_event b2"
      by (auto simp: defer_call_def)
    show ?thesis
    proof (cases st)
      case (Inl e)
      with assms(1) None c cNone st have "out = Return (Some e)" "s' = s2"
        by (auto simp: mainWrapper_body_def)
      with b1 b2 tt show ?thesis
        by (intro exI [of _ "b1 @ b2"]) (simp add: body_ok_fail)
    next
      case (Inr sinceStore)
      define l where "l = fst (call (Load env sinceStore) EvLoad s2)"
      define s3 where "s3 = snd (call (Load env sinceStore) EvLoad s2)"
      have t3: "trace s3 = trace s2 @ [EvLoad l]" "transactionTime s3 = transactionTime s2"
        by (simp_all add: s3_def l_def call_eq)
      show ?thesis
      proof (cases l)
        case (Inl e)
        with assms(1) None c cNone st \<open>st = Inr sinceStore\<close>
        have "out = Return (Some (Wrapf ''invalid since timestamp: '' e))" "s' = s3"
          by (auto simp: mainWrapper_body_def l_def s3_def split: prod.splits)
        with b1 b2 t3 tt show ?thesis
          by (intro exI [of _ "b1 @ b2 @ [EvLoad l]"]) (simp add: body_ok_fail)
      next
        case (Inr since_t)
        define x where "x = fst (call (StartBulkDataExport env since_t)
            (EvStartBulkDataExport since_t) (NewTransactionTime s3))"
        define s4 where "s4 = snd (call (StartBulkDataExport env since_t)
            (EvStartBulkDataExport since_t) (NewTransactionTime s3))"
        have t4: "trace s4 = trace s3 @ [EvStartBulkDataExport since_t x]"
          "transactionTime s4 = None"
          by (simp_all add: s4_def x_def call_eq NewTransactionTime_def)
        from assms(1) None c cNone st \<open>st = Inr sinceStore\<close> Inr
        have o: "(out, s') =
          (if pendingJobURL cfg = [] then
             (case x of Inl e \<Rightarrow> (Return (Some (Errorf ''unable to StartBulkDataExport: '' e)), s4)
              | Inr jobURL \<Rightarrow> mainWrapper_monitor env cfg sinceStore jobURL s4)
           else mainWrapper_monitor env cfg sinceStore (pendingJobURL cfg)
                  (NewTransactionTime s3))"
          by (auto simp: mainWrapper_body_def l_def s3_def x_def s4_def
              split: prod.splits sum.splits)
        show ?thesis
        proof (cases "pendingJobURL cfg = []")
          case False
          with o have "mainWrapper_monitor env cfg sinceStore (pendingJobURL cfg)
                  (NewTransactionTime s3) = (out, s')" by simp
          from monitor_spec [OF this] obtain m where m:
            "trace s' = trace s3 @ m" "monitor_ok m out (transactionTime s')"
            by (auto simp: NewTransactionTime_def)
          from body_ok_monitor [of "b1 @ b2 @ [EvLoad l]", OF _ m(2)] b1 b2 t3 m
          show ?thesis
            by (intro exI [of _ "(b1 @ b2 @ [EvLoad l]) @ m"]) simp
        next
          case True
          show ?thesis
          proof (cases x)
            case (Inl e)
            with o True have "out = Return (Some (Errorf ''unable to StartBulkDataExport: '' e))"
              "s' = s4" by auto
            with b1 b2 t3 t4 show ?thesis
              by (intro exI [of _ "b1 @ b2 @ [EvLoad l, EvStartBulkDataExport since_t x]"])
                 (simp add: body_ok_fail)
          next
            case (Inr jobURL)
            with o True have "mainWrapper_monitor env cfg sinceStore jobURL s4 = (out, s')"
              by simp
            from monitor_spec [OF this t4(2)] obtain m where m:
              "trace s' = trace s4 @ m" "monitor_ok m out (transactionTime s')"
              by auto
            from body_ok_monitor
               [of "b1 @ b2 @ [EvLoad l, EvStartBulkDataExport since_t x]", OF _ m(2)]
               b1 b2 t3 t4 m
            show ?thesis
              by (intro exI [of _ "(b1 @ b2 @ [EvLoad l, EvStartBulkDataExport since_t x]) @ m"])
                 simp
          qed
        qed
      qed
    qed
  qed
qed

lemma run_deferred_spec:
  "\<exists>cl. trace (run_deferred env ds s) = trace s @ cl \<and> list_all close_event cl \<and>
        transactionTime (run_deferred env ds s) = transactionTime s"
proof (induction ds arbitrary: s)
  case Nil
  then show ?case by simp
next
  case (Cons d ds)
  show ?case
  proof (cases d)
    case DeferClose
    from Cons.IH [of "snd (call (Close env) EvClose s)"] obtain cl where
      "trace (run_deferred env ds (snd (call (Close env) EvClose s))) =
         trace (snd (call (Close env) EvClose s)) @ cl" "list_all close_event cl"
      "transactionTime (run_deferred env ds (snd (call (Close env) EvClose s))) =
         transactionTime (snd (call (Close env) EvClose s))" by blast
    then show ?thesis unfolding DeferClose
      by (intro exI [of _ "EvClose (fst (Close env (world s))) # cl"]) (simp add: call_eq)
  next
    case (DeferCloseReader r)
    from Cons.IH [of "snd (call (CloseReader env r) (\<lambda>_. EvCloseReader r) s)"] obtain cl where
      "trace (run_deferred env ds (snd (call (CloseReader env r) (\<lambda>_. EvCloseReader r) s))) =
         trace (snd (call (CloseReader env r) (\<lambda>_. EvCloseReader r) s)) @ cl"
      "list_all close_event cl"
      "transactionTime (run_deferred env ds (snd (call (CloseReader env r) (\<lambda>_. EvCloseReader r) s))) =
         transactionTime (snd (call (CloseReader env r) (\<lambda>_. EvCloseReader r) s))" by blast
    then show ?thesis unfolding DeferCloseReader
      by (intro exI [of _ "EvCloseReader r # cl"]) (simp add: call_eq)
  qed
qed

lemma main_spec:
  assumes "mainWrapper env cfg (init w) = (out, s')"
  shows "main_ok (trace s') out (transactionTime s')"
proof -
  obtain s1 where b: "mainWrapper_body env cfg (init w) = (out, s1)"
    and s': "s' = run_deferred env (deferred s1) (s1\<lparr>deferred := []\<rparr>)"
    using assms by (auto simp: mainWrapper_def split: prod.splits)
  from body_spec [OF b] obtain evs where evs: "trace s1 = evs"
    "body_ok evs out (transactionTime s1)"
    by (auto simp: init_def)
  from run_deferred_spec [of env "deferred s1" "s1\<lparr>deferred := []\<rparr>"] obtain cl where
    cl: "trace s' = trace s1 @ cl" "list_all close_event cl"
    "transactionTime s' = transactionTime s1"
    unfolding s' by auto
  show ?thesis
    unfolding main_ok_def using evs cl by (intro exI [of _ evs] exI [of _ cl]) simp
qed

subsection \<open>The exact trace of a fetch\<close>

lemma loop_exact_spec:
  "getDataOrExit_loop env url r n s = (res, s') \<Longrightarrow> n \<le> maxRetries \<Longrightarrow>
   \<exists>evs. trace s' = trace s @ evs \<and> loop_exact url r n res evs"
proof (induction env url r n s arbitrary: res s' rule: getDataOrExit_loop.induct)
  case (1 env url r n s)
  show ?case
  proof (cases "retryable r \<and> n < maxRetries")
    case False
    with "1.prems" have "res = Inr r" "s' = s"
      by (subst (asm) getDataOrExit_loop.simps; simp)+
    moreover have "loop_exact url r n (Inr r) []"
      unfolding loop_exact_def using False "1.prems"(2)
      by (intro exI [of _ "[]"]) auto
    ultimately show ?thesis by simp
  next
    case True
    define s1 where "s1 = snd (call (Sleep env 2) (\<lambda>_. EvSleep 2) s)"
    define a where "a = fst (call (Authenticate env) EvAuthenticate s1)"
    define s2 where "s2 = snd (call (Authenticate env) EvAuthenticate s1)"
    define r' where "r' = fst (call (GetData env url) (EvGetData url) s2)"
    define s3 where "s3 = snd (call (GetData env url) (EvGetData url) s2)"
    have t2: "trace s2 = trace s @ [EvSleep 2, EvAuthenticate a]"
      by (simp_all add: s2_def s1_def a_def call_eq)
    have t3: "trace s3 = trace s @ [EvSleep 2, EvAuthenticate a, EvGetData url r']"
      using t2 by (simp_all add: s3_def r'_def call_eq)
    show ?thesis
    proof (cases a)
      case (Some e)
      with "1.prems" True have "res = Inl (Wrapf ''Error authenticating with API: '' e)" "s' = s2"
        by (subst (asm) getDataOrExit_loop.simps; auto simp: a_def s2_def s1_def split: prod.splits)+
      moreover have "loop_exact url r n (Inl (Wrapf ''Error authenticating with API: '' e))
          [EvSleep 2, EvAuthenticate (Some e)]"
        unfolding loop_exact_def using True
        by (intro exI [of _ "[]"]) auto
      ultimately show ?thesis using t2 Some by simp
    next
      case None
      with "1.prems" True have rec: "getDataOrExit_loop env url r' (n + 1) s3 = (res, s')"
        by (subst (asm) getDataOrExit_loop.simps)
           (auto simp: a_def s2_def s1_def r'_def s3_def split: prod.splits)
      have n1: "n + 1 \<le> maxRetries" using True by simp
      have "\<exists>evs. trace s' = trace s3 @ evs \<and> loop_exact url r' (n + 1) res evs"
        by (rule "1.IH" [OF True _ _ _ _ rec n1, of "()" s1 a s2])
           (use None in \<open>simp_all add: prod_eq_iff a_def s2_def s1_def r'_def s3_def\<close>)
      then obtain evs where evs: "trace s' = trace s3 @ evs" "loop_exact url r' (n + 1) res evs"
        by blast
      from evs(2) obtain rs where rs: "list_all retryable (butlast (r' # rs))"
        "n + 1 + length rs \<le> maxRetries"
        "case res of
           Inr x \<Rightarrow> evs = concat (map (retry_events url) rs) \<and> x = last (r' # rs) \<and>
                     (retryable x \<longrightarrow> n + 1 + length rs = maxRetries)
         | Inl e \<Rightarrow> \<exists>a. evs = concat (map (retry_events url) rs) @
                               [EvSleep 2, EvAuthenticate (Some a)] \<and>
                     e = Wrapf ''Error authenticating with API: '' a \<and>
                     retryable (last (r' # rs)) \<and> n + 1 + length rs < maxRetries"
        unfolding loop_exact_def by blast
      have "loop_exact url r n res (retry_events url r' @ evs)"
        unfolding loop_exact_def
        using rs True
        by (intro exI [of _ "r' # rs"]) (auto split: sum.splits)
      then show ?thesis using evs(1) t3 None
        by (intro exI [of _ "retry_events url r' @ evs"]) (simp add: retry_events_def)
    qed
  qed
qed

lemma fetch_exact_spec:
  assumes "getDataOrExit env url cid cs s = (res, s')"
  shows "\<exists>evs. trace s' = trace s @ evs \<and> fetch_exact url res evs"
proof -
  define r0 where "r0 = fst (call (GetData env url) (EvGetData url) s)"
  define s1 where "s1 = snd (call (GetData env url) (EvGetData url) s)"
  obtain lres s2 where l: "getDataOrExit_loop env url r0 0 s1 = (lres, s2)"
    by (cases "getDataOrExit_loop env url r0 0 s1")
  have t1: "trace s1 = trace s @ [EvGetData url r0]"
    by (simp_all add: s1_def r0_def call_eq)
  from loop_exact_spec [OF l] obtain evs where evs: "trace s2 = trace s1 @ evs"
    "loop_exact url r0 0 lres evs" by auto
  have s': "s' = s2" and res: "res = (case lres of Inl e \<Rightarrow> Inl e
      | Inr (Inl e) \<Rightarrow> Inl (Wrapf (''Unable to GetData('' @ url @ '') '') e)
      | Inr (Inr rd) \<Rightarrow> Inr rd)"
    using assms l
    by (auto simp: getDataOrExit_def r0_def s1_def split: prod.splits sum.splits)
  from evs(2) obtain rs where rs: "list_all retryable (butlast (r0 # rs))"
    "0 + length rs \<le> maxRetries"
    "case lres of
       Inr r' \<Rightarrow> evs = concat (map (retry_events url) rs) \<and> r' = last (r0 # rs) \<and>
                 (retryable r' \<longrightarrow> 0 + length rs = maxRetries)
     | Inl e \<Rightarrow> \<exists>a. evs = concat (map (retry_events url) rs) @
                           [EvSleep 2, EvAuthenticate (Some a)] \<and>
                 e = Wrapf ''Error authenticating with API: '' a \<and>
                 retryable (last (r0 # rs)) \<and> 0 + length rs < maxRetries"
    unfolding loop_exact_def by blast
  have "fetch_exact url res (EvGetData url r0 # evs)"
    unfolding fetch_exact_def res
    using rs by (intro exI [of _ r0] exI [of _ rs]) (auto split: sum.splits)
  then show ?thesis
    using evs t1 s' by (intro exI [of _ "EvGetData url r0 # evs"]) simp
qed

lemma getDataResults_append:
  "getDataResults (xs @ ys) = getDataResults xs @ getDataResults ys"
  by (induction xs rule: getDataResults.induct) auto

lemma authResults_append: "authResults (xs @ ys) = authResults xs @ authResults ys"
  by (induction xs rule: authResults.induct) auto

lemma getDataResults_retries:
  "getDataResults (concat (map (retry_events url) rs)) = rs"
  by (induction rs) (auto simp: retry_events_def)

lemma authResults_retries:
  "authResults (concat (map (retry_events url) rs)) = replicate (length rs) None"
  by (induction rs) (auto simp: retry_events_def)

subsection \<open>The ways a run can end\<close>

lemma main_ok_cases:
  assumes "main_ok tr out box"
  obtains
    (early) ini closes e where "tr = ini @ closes" "list_all setup_event ini"
      "list_all close_event closes" "out = Return (Some e)" "box = None"
  | (noresult) ini u closes where "tr = ini @ EvMonitorJobStatus u [] # closes"
      "list_all setup_event ini" "list_all close_event closes" "out = NilDereference"
      "box = None"
  | (timeout) ini u rs closes where "tr = ini @ EvMonitorJobStatus u rs # closes"
      "list_all setup_event ini" "list_all close_event closes" "rs \<noteq> []"
      "\<not> IsComplete (Status (last rs))" "out = Return (Some timeoutError)" "box = None"
  | (build) ini u rs build closes e where
      "tr = ini @ EvMonitorJobStatus u rs # EvSet (TransactionTime (Status (last rs))) #
              build @ closes"
      "list_all setup_event ini" "list_all close_event closes" "rs \<noteq> []"
      "IsComplete (Status (last rs))" "list_all build_event build" "out = Return (Some e)"
      "box = Some (TransactionTime (Status (last rs)))"
  | (download) ini u rs build dl fin closes res where
      "tr = ini @ EvMonitorJobStatus u rs # EvSet (TransactionTime (Status (last rs))) #
              build @ dl @ fin @ closes"
      "list_all setup_event ini" "list_all close_event closes" "rs \<noteq> []"
      "IsComplete (Status (last rs))" "list_all build_event build"
      "dl_ok (concat (map snd (ResultURLs (Status (last rs))))) res dl"
      "finish_ok (TransactionTime (Status (last rs))) res fin out"
      "box = Some (TransactionTime (Status (last rs)))"
      "dl_work (targets (ResultURLs (Status (last rs)))) res dl"
proof -
  from assms obtain evs closes where 1: "tr = evs @ closes" "body_ok evs out box"
    "list_all close_event closes" unfolding main_ok_def by blast
  from 1(2) obtain ini rest where 2: "evs = ini @ rest" "list_all setup_event ini"
    "(rest = [] \<and> (\<exists>e. out = Return (Some e)) \<and> box = None) \<or> monitor_ok rest out box"
    unfolding body_ok_def by blast
  show thesis
  proof (cases "monitor_ok rest out box")
    case False
    with 2(3) obtain e where e: "rest = []" "out = Return (Some e)" "box = None" by blast
    show thesis
            by (rule early [of ini closes e]) (use 1 2 e in simp_all)
  next
    case True
    then obtain u rs rest' where 3: "rest = EvMonitorJobStatus u rs # rest'"
      "if rs = [] then rest' = [] \<and> out = NilDereference \<and> box = None
         else if \<not> IsComplete (Status (last rs)) then
           rest' = [] \<and> out = Return (Some timeoutError) \<and> box = None
         else \<exists>tl. rest' = EvSet (TransactionTime (Status (last rs))) # tl \<and>
                box = Some (TransactionTime (Status (last rs))) \<and>
                pipeline_ok (Status (last rs)) tl out"
      unfolding monitor_ok_def by blast
    show thesis
    proof (cases "rs = []")
      case True
      show thesis
            by (rule noresult [of ini u closes]) (use 1 2 3 True in simp_all)
    next
      case ne: False
      show thesis
      proof (cases "IsComplete (Status (last rs))")
        case False
        show thesis
            by (rule timeout [of ini u rs closes]) (use 1 2 3 ne False in simp_all)
      next
        case True
        with 3(2) ne obtain tl where 4:
          "rest' = EvSet (TransactionTime (Status (last rs))) # tl"
          "box = Some (TransactionTime (Status (last rs)))"
          "pipeline_ok (Status (last rs)) tl out" by auto
        from 4(3) obtain bld rest'' where 5: "tl = bld @ rest''" "list_all build_event bld"
          "(rest'' = [] \<and> (\<exists>e. out = Return (Some e))) \<or> commit_ok (Status (last rs)) rest'' out"
          unfolding pipeline_ok_def by blast
        show thesis
        proof (cases "commit_ok (Status (last rs)) rest'' out")
          case False
          with 5(3) obtain e where e: "rest'' = []" "out = Return (Some e)" by blast
          show thesis
            by (rule build [of ini u rs bld closes e]) (use 1 2 3 4 5 ne True e in simp_all)
        next
          case c: True
          then obtain res dl fin where 6: "rest'' = dl @ fin"
            "dl_ok (concat (map snd (ResultURLs (Status (last rs))))) res dl"
            "finish_ok (TransactionTime (Status (last rs))) res fin out"
            "dl_work (targets (ResultURLs (Status (last rs)))) res dl"
            unfolding commit_ok_def by blast
          show thesis
            by (rule download [of ini u rs bld dl fin closes res]) (use 1 2 3 4 5 6 ne True in simp_all)
        qed
      qed
    qed
  qed
qed

lemma setCalls_append: "setCalls (xs @ ys) = setCalls xs @ setCalls ys"
  by (induction xs rule: setCalls.induct) auto

lemma setCalls_none: "\<forall>t. EvSet t \<notin> set xs \<Longrightarrow> setCalls xs = []"
  by (induction xs rule: setCalls.induct) auto

lemma getDataResults_none: "\<forall>u r. EvGetData u r \<notin> set xs \<Longrightarrow> getDataResults xs = []"
  by (induction xs rule: getDataResults.induct) auto

lemma okURLs_none: "\<forall>u r. EvGetData u r \<notin> set xs \<Longrightarrow> okURLs xs = []"
  by (induction xs rule: okURLs.induct) auto

lemma lastGet_none: "\<forall>u r. EvGetData u r \<notin> set xs \<Longrightarrow> lastGet xs = None"
  by (induction xs) (auto split: option.splits event.splits)

lemma setup_not:
  assumes "list_all setup_event xs"
  shows "EvGetData u r \<notin> set xs" "EvSet t \<notin> set xs" "EvStore t r' \<notin> set xs"
    "EvFinalize r' \<notin> set xs" "EvMonitorJobStatus j rs \<notin> set xs"
    "EvProcess rt u tok r' \<notin> set xs" "EvErr u r' \<notin> set xs" "EvAuthenticate r' \<notin> set xs"
  using assms by (auto simp: list_all_iff)

lemma close_not:
  assumes "list_all close_event xs"
  shows "EvGetData u r \<notin> set xs" "EvSet t \<notin> set xs" "EvStore t r' \<notin> set xs"
    "EvFinalize r' \<notin> set xs" "EvMonitorJobStatus j rs \<notin> set xs"
    "EvProcess rt u tok r' \<notin> set xs" "EvErr u r' \<notin> set xs" "EvAuthenticate r' \<notin> set xs"
  using assms by (auto simp: list_all_iff)

lemma build_not:
  assumes "list_all build_event xs"
  shows "EvGetData u r \<notin> set xs" "EvSet t \<notin> set xs" "EvStore t r' \<notin> set xs"
    "EvFinalize r' \<notin> set xs" "EvMonitorJobStatus j rs \<notin> set xs"
    "EvProcess rt u tok r' \<notin> set xs" "EvErr u r' \<notin> set xs" "EvAuthenticate r' \<notin> set xs"
  using assms by (auto simp: list_all_iff)

lemma dl_not:
  assumes "list_all dl_event xs"
  shows "EvSet t \<notin> set xs" "EvStore t r' \<notin> set xs"
    "EvFinalize r' \<notin> set xs" "EvMonitorJobStatus j rs \<notin> set xs"
  using assms by (auto simp: list_all_iff dl_event_def)

lemma finish_not:
  assumes "finish_ok t res fin out"
  shows "EvGetData u r \<notin> set fin" "EvSet t' \<notin> set fin" "EvMonitorJobStatus j rs \<notin> set fin"
    "EvProcess rt u tok r' \<notin> set fin" "EvErr u r' \<notin> set fin" "EvAuthenticate r' \<notin> set fin"
  using assms by (auto simp: finish_ok_def split: option.splits)

lemma setCalls_empty_iff: "setCalls xs = [] \<longleftrightarrow> (\<forall>t. EvSet t \<notin> set xs)"
  by (induction xs rule: setCalls.induct) auto

lemma set_shape:
  assumes "main_ok tr out box"
  shows "(setCalls tr = [] \<and> box = None \<and>
          (\<forall>u rs. EvMonitorJobStatus u rs \<in> set tr \<longrightarrow> rs = [] \<or> \<not> IsComplete (Status (last rs)))) \<or>
         (\<exists>pre u rs post. tr = pre @ EvMonitorJobStatus u rs # EvSet (TransactionTime (Status (last rs))) # post \<and>
            rs \<noteq> [] \<and> IsComplete (Status (last rs)) \<and>
            box = Some (TransactionTime (Status (last rs))) \<and>
            (\<forall>t. EvSet t \<notin> set pre) \<and> (\<forall>t. EvSet t \<notin> set post) \<and>
            (\<forall>j rs'. EvMonitorJobStatus j rs' \<notin> set pre) \<and>
            (\<forall>j rs'. EvMonitorJobStatus j rs' \<notin> set post))"
  using assms
proof (cases rule: main_ok_cases)
  case (early ini closes e)
  then show ?thesis
    using setup_not(2,5) [OF early(2)] close_not(2,5) [OF early(3)]
    by (auto simp: setCalls_empty_iff)
next
  case (noresult ini u' closes)
  then show ?thesis
    using setup_not(2,5) [OF noresult(2)] close_not(2,5) [OF noresult(3)]
    by (auto simp: setCalls_empty_iff)
next
  case (timeout ini u' rs' closes)
  then show ?thesis
    using setup_not(2,5) [OF timeout(2)] close_not(2,5) [OF timeout(3)]
    by (auto simp: setCalls_empty_iff)
next
  case (build ini u' rs' bld closes e)
  have "\<forall>t. EvSet t \<notin> set (bld @ closes)" "\<forall>j rs. EvMonitorJobStatus j rs \<notin> set (bld @ closes)"
    using close_not(2,5) [OF build(3)] build_not(2,5) [OF build(6)] by auto
  then show ?thesis
    using build setup_not(2,5) [OF build(2)]
    by (intro disjI2 exI [of _ ini] exI [of _ u'] exI [of _ rs'] exI [of _ "bld @ closes"])
       simp
next
  case (download ini u' rs' bld dl fin closes res)
  have "\<forall>t. EvSet t \<notin> set (bld @ dl @ fin @ closes)"
    "\<forall>j rs. EvMonitorJobStatus j rs \<notin> set (bld @ dl @ fin @ closes)"
    using close_not(2,5) [OF download(3)] build_not(2,5) [OF download(6)]
      dl_not(1,4) [OF dl_okD(1) [OF download(7)]] finish_not(2,3) [OF download(8)]
    by auto
  then show ?thesis
    using download setup_not(2,5) [OF download(2)]
    by (intro disjI2 exI [of _ ini] exI [of _ u'] exI [of _ rs']
          exI [of _ "bld @ dl @ fin @ closes"]) simp
qed

subsection \<open>The checkpoint store\<close>

lemma storeCalls_append: "storeCalls (xs @ ys) = storeCalls xs @ storeCalls ys"
  by (induction xs rule: storeCalls.induct) auto

lemma storeCalls_none: "\<forall>t r. EvStore t r \<notin> set xs \<Longrightarrow> storeCalls xs = []"
  by (induction xs rule: storeCalls.induct) auto

lemma scannedURLs_none: "\<forall>u r. EvErr u r \<notin> set xs \<Longrightarrow> scannedURLs xs = []"
  by (induction xs rule: scannedURLs.induct) auto

lemma setup_quiet: "list_all setup_event xs \<Longrightarrow> ev \<in> set xs \<Longrightarrow> failure_of ev = None"
  by (cases ev) (auto simp: list_all_iff)

lemma close_quiet: "list_all close_event xs \<Longrightarrow> ev \<in> set xs \<Longrightarrow> failure_of ev = None"
  by (cases ev) (auto simp: list_all_iff)

lemma build_quiet: "list_all build_event xs \<Longrightarrow> ev \<in> set xs \<Longrightarrow> failure_of ev = None"
  by (cases ev) (auto simp: list_all_iff)

lemma failure_final: "failure_of ev = Some e \<Longrightarrow> final_error ev = Some e"
  by (cases ev) auto

lemma dl_failure_last:
  assumes "dl_ok urls res dl" "ev \<in> set dl" "failure_of ev = Some e"
  shows "res = Some e"
proof -
  have ne: "dl \<noteq> []" using assms(2) by auto
  have "ev \<notin> set (butlast dl)"
    using dl_okD(2) [OF assms(1)] assms(3) by (auto simp: list_all_iff quiet_def)
  moreover have "set (butlast dl @ [last dl]) = set dl"
    using ne by simp
  ultimately have "ev = last dl" using assms(2) by auto
  with dl_okD(4) [OF assms(1) ne] failure_final [OF assms(3)] show ?thesis by simp
qed

lemma dl_quiet:
  assumes "dl_ok urls None dl" "ev \<in> set dl"
  shows "failure_of ev = None"
proof (cases "failure_of ev")
  case (Some e)
  from dl_failure_last [OF assms Some] show ?thesis by simp
qed simp

lemma lastGet_last:
  "lastGet (xs @ [EvGetData u r]) = Some (u, r)"
  by (simp add: lastGet_append)

lemma dl_lastGet_failed:
  assumes d: "dl_ok urls res dl" and l: "lastGet dl = Some (u, Inl e0)"
  shows "res = Some (Wrapf (''Unable to GetData('' @ u @ '') '') e0) \<or>
         (\<exists>a. EvAuthenticate (Some a) \<in> set dl \<and>
              res = Some (Wrapf ''Error authenticating with API: '' a))"
proof -
  have ne: "dl \<noteq> []" using l by auto
  then have dl: "dl = butlast dl @ [last dl]" by simp
  have ns: "\<not> scan_event (last dl)"
    using dl_okD(7) [OF d ne] l by auto
  have fin: "final_error (last dl) = res" by (rule dl_okD(4) [OF d ne])
  have rn: "res \<noteq> None" by (rule dl_okD(8) [OF d ne ns])
  have "dl_event (last dl)"
    using dl_okD(1) [OF d] ne by (simp add: list_all_iff)
  with ns have fe: "fetch_event (last dl)" by (simp add: dl_event_def)
  show ?thesis
  proof (cases "last dl")
    case (EvGetData u' r')
    with l have "lastGet (butlast dl @ [EvGetData u' r']) = Some (u, Inl e0)"
      using dl by simp
    then have "u' = u" "r' = Inl e0" by (simp_all add: lastGet_last)
    with fin EvGetData show ?thesis by auto
  next
    case (EvAuthenticate a)
    with fin rn obtain a' where a': "a = Some a'" by (cases a) auto
    have "last dl \<in> set dl" using ne by simp
    with EvAuthenticate a' fin show ?thesis by auto
  next
    case (EvSleep n)
    with fin rn show ?thesis by simp
  qed (use fe in auto)
qed

lemma idle_kinds:
  "setup_event ev \<Longrightarrow> idle_event ev" "build_event ev \<Longrightarrow> idle_event ev"
  "close_event ev \<Longrightarrow> idle_event ev"
  by (cases ev; simp)+

lemma idle_list:
  "list_all setup_event xs \<Longrightarrow> list_all idle_event xs"
  "list_all build_event xs \<Longrightarrow> list_all idle_event xs"
  "list_all close_event xs \<Longrightarrow> list_all idle_event xs"
  by (auto simp: list_all_iff idle_kinds)

lemma idle_obs:
  assumes "list_all idle_event xs"
  shows "storeCalls xs = []" "okURLs xs = []" "scannedURLs xs = []" "lastGet xs = None"
    "getDataResults xs = []" "EvFinalize r \<notin> set xs" "EvStore t r \<notin> set xs"
    "ev \<in> set xs \<Longrightarrow> failure_of ev = None"
proof -
  have n: "\<And>ev. ev \<in> set xs \<Longrightarrow> idle_event ev" using assms by (simp add: list_all_iff)
  show "storeCalls xs = []" by (rule storeCalls_none) (use n in fastforce)
  show "okURLs xs = []" by (rule okURLs_none) (use n in fastforce)
  show "scannedURLs xs = []" by (rule scannedURLs_none) (use n in fastforce)
  show "lastGet xs = None" by (rule lastGet_none) (use n in fastforce)
  show "getDataResults xs = []" by (rule getDataResults_none) (use n in fastforce)
  show "EvFinalize r \<notin> set xs" using n by fastforce
  show "EvStore t r \<notin> set xs" using n by fastforce
  show "ev \<in> set xs \<Longrightarrow> failure_of ev = None" using n [of ev] by (cases ev) auto
qed

lemma dl_obs:
  assumes "list_all dl_event xs"
  shows "storeCalls xs = []" "EvFinalize r \<notin> set xs" "EvStore t r \<notin> set xs"
proof -
  have n: "\<And>ev. ev \<in> set xs \<Longrightarrow> dl_event ev" using assms by (simp add: list_all_iff)
  show "storeCalls xs = []" by (rule storeCalls_none) (use n in \<open>fastforce simp: dl_event_def\<close>)
  show "EvFinalize r \<notin> set xs" using n by (fastforce simp: dl_event_def)
  show "EvStore t r \<notin> set xs" using n by (fastforce simp: dl_event_def)
qed

lemma run_cases:
  assumes "main_ok tr out box"
  obtains
    (idle) "list_all idle_event tr"
  | (aborted) A dl closes e urls where "tr = A @ dl @ closes" "list_all idle_event A"
      "list_all close_event closes" "dl_ok urls (Some e) dl" "out = Return (Some e)"
  | (unfinalized) A dl closes e urls where "tr = A @ dl @ EvFinalize (Some e) # closes"
      "list_all idle_event A" "list_all close_event closes" "dl_ok urls None dl"
      "out = Return (Some (Wrapf ''failed to finalize output pipeline: '' e))"
  | (stored) A dl closes r u rs where
      "tr = A @ dl @ EvFinalize None # EvStore (TransactionTime (Status (last rs))) r # closes"
      "list_all idle_event A" "list_all close_event closes"
      "dl_ok (concat (map snd (ResultURLs (Status (last rs))))) None dl"
      "out = Return (map_option (Errorf ''failed to store transaction timestamp: '') r)"
      "EvMonitorJobStatus u rs \<in> set A" "rs \<noteq> []" "IsComplete (Status (last rs))"
  using assms
proof (cases rule: main_ok_cases)
  case (early ini closes e)
  show ?thesis
    by (rule idle) (use early idle_list(1) [OF early(2)] idle_list(3) [OF early(3)] in simp)
next
  case (noresult ini u' closes)
  show ?thesis
    by (rule idle)
       (use noresult idle_list(1) [OF noresult(2)] idle_list(3) [OF noresult(3)] in simp)
next
  case (timeout ini u' rs' closes)
  show ?thesis
    by (rule idle)
       (use timeout idle_list(1) [OF timeout(2)] idle_list(3) [OF timeout(3)] in simp)
next
  case (build ini u' rs' bld closes e)
  show ?thesis
    by (rule idle)
       (use build idle_list(1) [OF build(2)] idle_list(3) [OF build(3)]
          idle_list(2) [OF build(6)] in simp)
next
  case (download ini u rs bld dl fin closes res)
  define js where "js = Status (last rs)"
  define A where "A = ini @ EvMonitorJobStatus u rs # EvSet (TransactionTime js) # bld"
  have tr: "tr = A @ dl @ fin @ closes"
    by (simp add: download(1) A_def js_def)
  have iA: "list_all idle_event A"
    using idle_list(1) [OF download(2)] idle_list(2) [OF download(6)] by (simp add: A_def)
  have d: "dl_ok (concat (map snd (ResultURLs js))) res dl"
    using download(7) by (simp add: js_def)
  have f: "finish_ok (TransactionTime js) res fin out"
    using download(8) by (simp add: js_def)
  have monA: "EvMonitorJobStatus u rs \<in> set A" by (simp add: A_def)
  show ?thesis
  proof (cases res)
    case (Some e)
    with f have "fin = []" "out = Return (Some e)" by (simp_all add: finish_ok_def)
    then show ?thesis
      by (intro aborted [of A dl closes _ e]) (use tr iA download(3) d Some in simp_all)
  next
    case None
    from f None consider
      (finfail) e where "fin = [EvFinalize (Some e)]"
        "out = Return (Some (Wrapf ''failed to finalize output pipeline: '' e))"
    | (st) r where "fin = [EvFinalize None, EvStore (TransactionTime js) r]"
        "out = Return (map_option (Errorf ''failed to store transaction timestamp: '') r)"
      by (auto simp: finish_ok_def)
    then show ?thesis
    proof cases
      case finfail
      then show ?thesis
        by (intro unfinalized [of A dl e closes]) (use tr iA download(3) d None in simp_all)
    next
      case st
      then show ?thesis
        by (intro stored [of A dl rs r closes u])
           (use tr iA download(3,4,5) d None monA in \<open>simp_all add: js_def\<close>)
    qed
  qed
qed

lemma dl_lastGet_ok:
  assumes "dl_ok urls None dl"
  shows "lastGet dl \<noteq> Some (u, Inl e)"
proof
  assume "lastGet dl = Some (u, Inl e)"
  from dl_lastGet_failed [OF assms this] show False by simp
qed

lemma aborted_obs:
  assumes tr: "tr = A @ dl @ closes" and iA: "list_all idle_event A"
    and cl: "list_all close_event closes" and d: "dl_ok urls (Some e) dl"
  shows "storeCalls tr = []" "EvStore t r \<notin> set tr" "EvFinalize r \<notin> set tr"
    "ev \<in> set tr \<Longrightarrow> failure_of ev = Some e' \<Longrightarrow> e' = e"
    "lastGet tr = lastGet dl" "set dl \<subseteq> set tr"
proof -
  note iC = idle_list(3) [OF cl]
  note de = dl_okD(1) [OF d]
  show "storeCalls tr = []"
    by (simp add: tr storeCalls_append idle_obs(1) [OF iA] idle_obs(1) [OF iC] dl_obs(1) [OF de])
  show "EvStore t r \<notin> set tr"
    using idle_obs(7) [OF iA] idle_obs(7) [OF iC] dl_obs(3) [OF de] by (simp add: tr)
  show "EvFinalize r \<notin> set tr"
    using idle_obs(6) [OF iA] idle_obs(6) [OF iC] dl_obs(2) [OF de] by (simp add: tr)
  show "lastGet tr = lastGet dl"
    by (simp add: tr lastGet_append idle_obs(4) [OF iA] idle_obs(4) [OF iC] split: option.splits)
  show "set dl \<subseteq> set tr" by (auto simp: tr)
  show "ev \<in> set tr \<Longrightarrow> failure_of ev = Some e' \<Longrightarrow> e' = e"
  proof -
    assume a: "ev \<in> set tr" "failure_of ev = Some e'"
    then have "ev \<in> set dl"
      using idle_obs(8) [OF iA, of ev] idle_obs(8) [OF iC, of ev] by (auto simp: tr)
    from dl_failure_last [OF d this a(2)] show "e' = e" by simp
  qed
qed

lemma unfinalized_obs:
  assumes tr: "tr = A @ dl @ EvFinalize (Some e) # closes" and iA: "list_all idle_event A"
    and cl: "list_all close_event closes" and d: "dl_ok urls None dl"
  shows "storeCalls tr = []" "EvStore t r \<notin> set tr" "EvFinalize None \<notin> set tr"
    "ev \<in> set tr \<Longrightarrow> failure_of ev = Some e' \<Longrightarrow>
       e' = Wrapf ''failed to finalize output pipeline: '' e"
    "lastGet tr \<noteq> Some (u, Inl e0)"
proof -
  note iC = idle_list(3) [OF cl]
  note de = dl_okD(1) [OF d]
  show "storeCalls tr = []"
    by (simp add: tr storeCalls_append idle_obs(1) [OF iA] idle_obs(1) [OF iC] dl_obs(1) [OF de])
  show "EvStore t r \<notin> set tr"
    using idle_obs(7) [OF iA] idle_obs(7) [OF iC] dl_obs(3) [OF de] by (simp add: tr)
  show "EvFinalize None \<notin> set tr"
    using idle_obs(6) [OF iA] idle_obs(6) [OF iC] dl_obs(2) [OF de] by (simp add: tr)
  have "lastGet tr = lastGet dl"
    by (simp add: tr lastGet_append idle_obs(4) [OF iA] idle_obs(4) [OF iC] split: option.splits)
  then show "lastGet tr \<noteq> Some (u, Inl e0)"
    using dl_lastGet_ok [OF d] by simp
  show "ev \<in> set tr \<Longrightarrow> failure_of ev = Some e' \<Longrightarrow>
       e' = Wrapf ''failed to finalize output pipeline: '' e"
    using idle_obs(8) [OF iA, of ev] idle_obs(8) [OF iC, of ev] dl_quiet [OF d, of ev]
    by (auto simp: tr)
qed

lemma stored_obs:
  assumes tr: "tr = A @ dl @ EvFinalize None # EvStore t r # closes"
    and iA: "list_all idle_event A"
    and cl: "list_all close_event closes" and d: "dl_ok urls None dl"
  shows "storeCalls tr = [(t, r)]" "EvStore t' r' \<in> set tr \<Longrightarrow> t' = t \<and> r' = r"
    "EvFinalize None \<in> set tr" "EvStore t r \<in> set tr"
    "ev \<in> set tr \<Longrightarrow> failure_of ev = None"
    "lastGet tr \<noteq> Some (u, Inl e0)" "okURLs tr = urls" "scannedURLs tr = urls"
proof -
  note iC = idle_list(3) [OF cl]
  note de = dl_okD(1) [OF d]
  show "storeCalls tr = [(t, r)]"
    by (simp add: tr storeCalls_append idle_obs(1) [OF iA] idle_obs(1) [OF iC] dl_obs(1) [OF de])
  show "EvStore t' r' \<in> set tr \<Longrightarrow> t' = t \<and> r' = r"
    using idle_obs(7) [OF iA] idle_obs(7) [OF iC] dl_obs(3) [OF de] by (auto simp: tr)
  show "EvFinalize None \<in> set tr" "EvStore t r \<in> set tr" by (simp_all add: tr)
  have "lastGet tr = lastGet dl"
    by (simp add: tr lastGet_append idle_obs(4) [OF iA] idle_obs(4) [OF iC] split: option.splits)
  then show "lastGet tr \<noteq> Some (u, Inl e0)"
    using dl_lastGet_ok [OF d] by simp
  show "ev \<in> set tr \<Longrightarrow> failure_of ev = None"
    using idle_obs(8) [OF iA, of ev] idle_obs(8) [OF iC, of ev] dl_quiet [OF d, of ev]
    by (auto simp: tr)
  show "okURLs tr = urls"
    using dl_okD(5) [OF d]
    by (simp add: tr okURLs_append idle_obs(2) [OF iA] idle_obs(2) [OF iC])
  show "scannedURLs tr = urls"
    using dl_okD(10) [OF d]
    by (simp add: tr scannedURLs_append idle_obs(3) [OF iA] idle_obs(3) [OF iC])
qed

lemma idle_work:
  assumes "list_all idle_event xs"
  shows "work xs = []" "okStreams xs = []"
  using assms
proof (induction xs)
  case Nil
  {
    case 1 show ?case by (simp add: work_def)
  next
    case 2 show ?case by simp
  }
next
  case (Cons ev xs)
  {
    case 1 with Cons(1) show ?case by (cases ev) (auto simp: work_def)
  next
    case 2 with Cons(2) show ?case by (cases ev) auto
  }
qed

lemma finish_work:
  assumes "finish_ok t res fin out"
  shows "work fin = []" "okStreams fin = []" "EvFinalize r \<in> set fin \<Longrightarrow> res = None"
  using assms by (auto simp: finish_ok_def work_def split: option.splits)

lemma run_work:
  assumes m: "main_ok tr out box"
    and mon: "EvMonitorJobStatus u rs \<in> set tr" and ne: "rs \<noteq> []"
  shows "length (okStreams tr) \<le> length (targets (ResultURLs (Status (last rs))))"
    "\<exists>rest. work tr @ rest = expected (targets (ResultURLs (Status (last rs)))) (okStreams tr)"
    "EvFinalize r \<in> set tr \<Longrightarrow>
       length (okStreams tr) = length (targets (ResultURLs (Status (last rs)))) \<and>
       work tr = expected (targets (ResultURLs (Status (last rs)))) (okStreams tr)"
proof -
  define ps where "ps = targets (ResultURLs (Status (last rs)))"
  have "length (okStreams tr) \<le> length ps \<and>
        (\<exists>rest. work tr @ rest = expected ps (okStreams tr)) \<and>
        (EvFinalize r \<in> set tr \<longrightarrow>
           length (okStreams tr) = length ps \<and> work tr = expected ps (okStreams tr))"
    using m
  proof (cases rule: main_ok_cases)
    case (early ini closes e)
    have i: "list_all idle_event tr"
      using early idle_list(1) [OF early(2)] idle_list(3) [OF early(3)] by simp
    from idle_work [OF i] idle_obs(6) [OF i] show ?thesis by (simp add: expected_nil)
  next
    case (noresult ini u' closes)
    have i: "list_all idle_event tr"
      using noresult idle_list(1) [OF noresult(2)] idle_list(3) [OF noresult(3)] by simp
    from idle_work [OF i] idle_obs(6) [OF i] show ?thesis by (simp add: expected_nil)
  next
    case (timeout ini u' rs' closes)
    have i: "list_all idle_event tr"
      using timeout idle_list(1) [OF timeout(2)] idle_list(3) [OF timeout(3)] by simp
    from idle_work [OF i] idle_obs(6) [OF i] show ?thesis by (simp add: expected_nil)
  next
    case (build ini u' rs' bld closes e)
    have i: "list_all idle_event tr"
      using build idle_list(1) [OF build(2)] idle_list(3) [OF build(3)]
        idle_list(2) [OF build(6)] by simp
    from idle_work [OF i] idle_obs(6) [OF i] show ?thesis by (simp add: expected_nil)
  next
    case (download ini u' rs' bld dl fin closes res)
    from mon setup_not(5) [OF download(2)] close_not(5) [OF download(3)]
      build_not(5) [OF download(6)] dl_not(4) [OF dl_okD(1) [OF download(7)]]
      finish_not(3) [OF download(8)]
    have eq: "rs' = rs" by (auto simp: download(1))
    define A where "A = ini @ EvMonitorJobStatus u' rs' #
        EvSet (TransactionTime (Status (last rs'))) # bld"
    have iA: "list_all idle_event A"
      using idle_list(1) [OF download(2)] idle_list(2) [OF download(6)] by (simp add: A_def)
    note iC = idle_list(3) [OF download(3)]
    have tr: "tr = A @ dl @ fin @ closes"
      by (simp add: download(1) A_def)
    have w: "work tr = work dl" "okStreams tr = okStreams dl"
      by (simp_all add: tr work_append okStreams_append idle_work [OF iA] idle_work [OF iC]
            finish_work(1,2) [OF download(8)])
    have d: "dl_work ps res dl" using download(10) by (simp add: eq ps_def)
    have f: "EvFinalize r \<in> set tr \<Longrightarrow> res = None"
      using idle_obs(6) [OF iA] idle_obs(6) [OF iC] dl_obs(2) [OF dl_okD(1) [OF download(7)]]
        finish_work(3) [OF download(8)]
      by (auto simp: tr)
    from d f show ?thesis
      unfolding dl_work_def w by blast
  qed
  then show "length (okStreams tr) \<le> length (targets (ResultURLs (Status (last rs))))"
    "\<exists>rest. work tr @ rest = expected (targets (ResultURLs (Status (last rs)))) (okStreams tr)"
    "EvFinalize r \<in> set tr \<Longrightarrow>
       length (okStreams tr) = length (targets (ResultURLs (Status (last rs)))) \<and>
       work tr = expected (targets (ResultURLs (Status (last rs)))) (okStreams tr)"
    by (simp_all add: ps_def)
qed

lemma store_iff_finalized:
  assumes "main_ok tr out box"
  shows "((\<exists>t r. EvStore t r \<in> set tr) \<longleftrightarrow>
            EvFinalize None \<in> set tr \<and> downloads_complete tr) \<and>
         (EvFinalize None \<in> set tr \<longrightarrow> downloads_complete tr) \<and>
         length (storeCalls tr) \<le> 1"
  using assms
proof (cases rule: run_cases)
  case idle
  from idle_obs(1,6,7) [OF idle] show ?thesis by simp
next
  case (aborted A dl closes e urls)
  from aborted_obs(1,2,3) [OF aborted(1-4)] show ?thesis by simp
next
  case (unfinalized A dl closes e urls)
  from unfinalized_obs(1,2,3) [OF unfinalized(1-4)] show ?thesis by simp
next
  case (stored A dl closes r u rs)
  note o = stored_obs [OF stored(1-4)]
  have m: "EvMonitorJobStatus u rs \<in> set tr" using stored(6) by (simp add: stored(1))
  note w = run_work(3) [OF assms m stored(7) o(3)]
  have "downloads_complete tr"
    unfolding downloads_complete_def using m stored(7,8) o(5,7,8) w by blast
  with o(1,3,4) show ?thesis by auto
qed

lemma store_is_last:
  assumes "main_ok tr out box" "EvStore t r \<in> set tr"
  shows "out = Return (map_option (Errorf ''failed to store transaction timestamp: '') r) \<and>
         (\<exists>pre u rs closes. tr = pre @ EvFinalize None # EvStore t r # closes \<and>
            list_all close_event closes \<and> EvMonitorJobStatus u rs \<in> set pre \<and>
            rs \<noteq> [] \<and> t = TransactionTime (Status (last rs)))"
  using assms(1)
proof (cases rule: run_cases)
  case idle
  from idle_obs(7) [OF idle] assms(2) show ?thesis by simp
next
  case (aborted A dl closes e urls)
  from aborted_obs(2) [OF aborted(1-4)] assms(2) show ?thesis by simp
next
  case (unfinalized A dl closes e urls)
  from unfinalized_obs(2) [OF unfinalized(1-4)] assms(2) show ?thesis by simp
next
  case (stored A dl closes r' u rs)
  from stored_obs(2) [OF stored(1-4) assms(2)]
  have eq: "t = TransactionTime (Status (last rs))" "r = r'" by simp_all
  have "tr = (A @ dl) @ EvFinalize None # EvStore t r # closes"
    by (simp add: stored(1) eq)
  moreover have "EvMonitorJobStatus u rs \<in> set (A @ dl)" using stored(6) by simp
  ultimately have "\<exists>pre u rs closes. tr = pre @ EvFinalize None # EvStore t r # closes \<and>
            list_all close_event closes \<and> EvMonitorJobStatus u rs \<in> set pre \<and>
            rs \<noteq> [] \<and> t = TransactionTime (Status (last rs))"
    using stored(3,7) eq(1) by blast
  then show ?thesis using stored(5) eq(2) by simp
qed

lemma failure_aborts:
  assumes "main_ok tr out box" "ev \<in> set tr" "failure_of ev = Some e"
  shows "out = Return (Some e) \<and> storeCalls tr = []"
  using assms(1)
proof (cases rule: run_cases)
  case idle
  from idle_obs(8) [OF idle assms(2)] assms(3) show ?thesis by simp
next
  case (aborted A dl closes e' urls)
  from aborted_obs(1,4) [OF aborted(1-4)] assms(2,3) aborted(5) show ?thesis by simp
next
  case (unfinalized A dl closes e' urls)
  from unfinalized_obs(1,4) [OF unfinalized(1-4)] assms(2,3) unfinalized(5) show ?thesis
    by simp
next
  case (stored A dl closes r u rs)
  from stored_obs(5) [OF stored(1-4) assms(2)] assms(3) show ?thesis by simp
qed

lemma fetch_failure_aborts:
  assumes "main_ok tr out box" "lastGet tr = Some (u, Inl e)"
  shows "storeCalls tr = [] \<and>
         (out = Return (Some (Wrapf (''Unable to GetData('' @ u @ '') '') e)) \<or>
          (\<exists>a. EvAuthenticate (Some a) \<in> set tr \<and>
               out = Return (Some (Wrapf ''Error authenticating with API: '' a))))"
  using assms(1)
proof (cases rule: run_cases)
  case idle
  from idle_obs(4) [OF idle] assms(2) show ?thesis by simp
next
  case (aborted A dl closes e' urls)
  note o = aborted_obs [OF aborted(1-4)]
  from assms(2) o(5) have "lastGet dl = Some (u, Inl e)" by simp
  from dl_lastGet_failed [OF aborted(4) this] o(1,6) aborted(5) show ?thesis by auto
next
  case (unfinalized A dl closes e' urls)
  from unfinalized_obs(5) [OF unfinalized(1-4), of u e] assms(2) show ?thesis by simp
next
  case (stored A dl closes r u' rs)
  from stored_obs(6) [OF stored(1-4), of u e] assms(2) show ?thesis by simp
qed

subsection \<open>The client, the retries and oversize records\<close>

lemma getBulkFHIRClient_client:
  "getBulkFHIRClient env cfg s = (r, s') \<Longrightarrow>
   \<exists>evs. trace s' = trace s @ evs \<and> deferred s' = deferred s \<and> list_all client_event evs"
  by (auto simp: getBulkFHIRClient_def call_eq split: if_splits option.splits)

lemma errorsIs_refl: "errorsIs e e"
  by (cases e) auto

lemma list_all_butlast_last:
  "xs \<noteq> [] \<Longrightarrow> list_all P (butlast xs) \<Longrightarrow> P (last xs) \<Longrightarrow> list_all P xs"
  by (induction xs) (auto split: if_splits)

lemma retries_auth_ok: "EvAuthenticate (Some a) \<notin> set (concat (map (retry_events url) rs))"
  by (induction rs) (auto simp: retry_events_def)

lemma fetch_events_unique:
  assumes "getDataOrExit env url cid cs s = (res, s')" "trace s' = trace s @ evs"
  shows "fetch_exact url res evs"
proof -
  from fetch_exact_spec [OF assms(1)] obtain evs' where "trace s' = trace s @ evs'"
    "fetch_exact url res evs'" by blast
  with assms(2) show ?thesis by simp
qed


lemma mid_split:
  assumes "pre @ x # post = A @ D @ B" "x \<notin> set A" "x \<notin> set B"
  shows "\<exists>p q. D = p @ x # q \<and> pre = A @ p \<and> post = q @ B"
proof -
  from assms(1) obtain us where
    "(pre = A @ us \<and> us @ x # post = D @ B) \<or> (pre @ us = A \<and> x # post = us @ D @ B)"
    unfolding append_eq_append_conv2 by blast
  then have "\<exists>p. pre = A @ p \<and> p @ x # post = D @ B"
  proof
    assume "pre = A @ us \<and> us @ x # post = D @ B"
    then show ?thesis by blast
  next
    assume a: "pre @ us = A \<and> x # post = us @ D @ B"
    show ?thesis
    proof (cases us)
      case Nil
      with a show ?thesis by auto
    next
      case (Cons y ys)
      with a have "x \<in> set A" by auto
      with assms(2) show ?thesis by simp
    qed
  qed
  then obtain p where p: "pre = A @ p" "p @ x # post = D @ B" by blast
  from p(2) obtain vs where
    "(p = D @ vs \<and> vs @ x # post = B) \<or> (p @ vs = D \<and> x # post = vs @ B)"
    unfolding append_eq_append_conv2 by blast
  then have "\<exists>q. D = p @ x # q \<and> post = q @ B"
  proof
    assume "p = D @ vs \<and> vs @ x # post = B"
    then have "x \<in> set B" by auto
    with assms(3) show ?thesis by simp
  next
    assume a: "p @ vs = D \<and> x # post = vs @ B"
    show ?thesis
    proof (cases vs)
      case Nil
      with a have "x \<in> set B" by auto
      with assms(3) show ?thesis by simp
    next
      case (Cons y ys)
      with a show ?thesis by auto
    qed
  qed
  with p(1) show ?thesis by blast
qed

lemma after_oversize_at:
  "after_oversize res (p @ EvGetData u (Inr r) # q) \<Longrightarrow> hasOversizeRecord r \<Longrightarrow>
   list_all scan_event q \<and>
   (res = Some ErrTooLong \<or>
    (\<exists>rt tok e. res = Some e \<and> q \<noteq> [] \<and> last q = EvProcess rt u tok (Some e)))"
  by (induction p rule: okURLs.induct) (auto split: if_splits)

lemma idle_no_get: "list_all idle_event xs \<Longrightarrow> EvGetData u r \<notin> set xs"
  by (auto simp: list_all_iff)

lemma urls_in_order:
  assumes m: "main_ok (trace s') out box"
    and mon: "EvMonitorJobStatus u rs \<in> set (trace s')" and ne: "rs \<noteq> []"
  shows "(\<exists>rest. concat (map snd (ResultURLs (Status (last rs)))) = okURLs (trace s') @ rest) \<and>
         (\<forall>r. EvFinalize r \<in> set (trace s') \<longrightarrow>
            okURLs (trace s') = concat (map snd (ResultURLs (Status (last rs)))))"
  using m
proof (cases rule: main_ok_cases)
  case (early ini closes e)
  have i: "list_all idle_event (trace s')"
    using early idle_list(1) [OF early(2)] idle_list(3) [OF early(3)] by simp
  from idle_obs(2,6) [OF i] show ?thesis by simp
next
  case (noresult ini u' closes)
  have i: "list_all idle_event (trace s')"
    using noresult idle_list(1) [OF noresult(2)] idle_list(3) [OF noresult(3)] by simp
  from idle_obs(2,6) [OF i] show ?thesis by simp
next
  case (timeout ini u' rs' closes)
  have i: "list_all idle_event (trace s')"
    using timeout idle_list(1) [OF timeout(2)] idle_list(3) [OF timeout(3)] by simp
  from idle_obs(2,6) [OF i] show ?thesis by simp
next
  case (build ini u' rs' bld closes e)
  have i: "list_all idle_event (trace s')"
    using build idle_list(1) [OF build(2)] idle_list(3) [OF build(3)] idle_list(2) [OF build(6)]
    by simp
  from idle_obs(2,6) [OF i] show ?thesis by simp
next
  case (download ini u' rs' bld dl fin closes res)
  from mon setup_not(5) [OF download(2)] close_not(5) [OF download(3)]
    build_not(5) [OF download(6)] dl_not(4) [OF dl_okD(1) [OF download(7)]]
    finish_not(3) [OF download(8)]
  have eq: "rs' = rs" by (auto simp: download(1))
  define urls where "urls = concat (map snd (ResultURLs (Status (last rs))))"
  define A where "A = ini @ EvMonitorJobStatus u' rs' #
      EvSet (TransactionTime (Status (last rs'))) # bld"
  have iA: "list_all idle_event A"
    using idle_list(1) [OF download(2)] idle_list(2) [OF download(6)] by (simp add: A_def)
  note iC = idle_list(3) [OF download(3)]
  have d: "dl_ok urls res dl" using download(7) by (simp add: eq urls_def)
  have of: "okURLs fin = []"
    using download(8) by (auto simp: finish_ok_def split: option.splits)
  have tr: "trace s' = A @ dl @ fin @ closes"
    by (simp add: download(1) A_def)
  have ok: "okURLs (trace s') = okURLs dl"
    by (simp add: tr okURLs_append idle_obs(2) [OF iA] idle_obs(2) [OF iC] of)
  have 1: "\<exists>rest. urls = okURLs (trace s') @ rest"
    using dl_okD(6) [OF d] by (simp add: ok)
  have 2: "\<forall>r. EvFinalize r \<in> set (trace s') \<longrightarrow> okURLs (trace s') = urls"
  proof (intro allI impI)
    fix r assume "EvFinalize r \<in> set (trace s')"
    then have "EvFinalize r \<in> set fin"
      using idle_obs(6) [OF iA] idle_obs(6) [OF iC] dl_obs(2) [OF dl_okD(1) [OF d]]
      by (auto simp: tr)
    then have "res = None"
      using download(8) by (auto simp: finish_ok_def split: option.splits)
    from dl_okD(5) [OF d this] show "okURLs (trace s') = urls" by (simp add: ok)
  qed
  from 1 2 show ?thesis by (simp add: urls_def)
qed

subsection \<open>Concrete runs\<close>

lemmas eval_simps = mainWrapper_def mainWrapper_body_def mainWrapper_flags_def
  getBulkFHIRClient_def getTransactionTimeStore_def mainWrapper_monitor_def
  mainWrapper_pipeline_def mainWrapper_commit_def getDataOrExit_def
  getDataOrExit_loop.simps mainWrapper_scan.simps call_def scripted_def config_def init_def
  defer_call_def NewTransactionTime_def Set_TransactionTime_def HasPrefix_def
  filepath_Split_def Scan_def Err_def Buffer_def NewScanner_def dropCR_def
  retryable_def maxRetries_def initialBufferSize_def Let_def jobStatus_def
  LF_def CR_def

lemma run_ok:
  "mainWrapper (scripted (\<lambda>_. Inr smallBody) None [jobStatus True [(''Patient'', [''u1''])]]
       (\<lambda>_. None)) (config ''id'' ''secret'' [] []) (init 0) =
   (Return None,
    \<lparr>world = 1,
     trace =
       [EvNewClient None, EvNewStore (InMemoryTransactionTimeStore []) None, EvLoad (Inr 0),
        EvStartBulkDataExport 0 (Inr ''job''),
        EvMonitorJobStatus ''job'' [jobStatus True [(''Patient'', [''u1''])]],
        EvSet 7, EvNewNDJSONSink ''out/'' ''data'' None,
        EvNewPipeline [] [NDJSONSink ''out/'' ''data''] None,
        EvGetData ''u1'' (Inr smallBody),
        EvProcess ''Patient'' ''u1'' ''a'' None, EvProcess ''Patient'' ''u1'' ''b'' None,
        EvErr ''u1'' None, EvFinalize None, EvStore 7 None, EvCloseReader smallBody,
        EvClose None],
     deferred = [], transactionTime = Some 7\<rparr>)"
  by (simp add: eval_simps smallBody_def maxTokenSize_def)

lemma run_two:
  "mainWrapper (scripted (\<lambda>n. if n = Suc 0 then Inr emptyBody else Inr smallBody) None
          [jobStatus True [(''Patient'', [''p1'', ''p2'']), (''Coverage'', [''c1''])]] (\<lambda>_. None))
          (config ''id'' ''secret'' [] []) (init 0) =
   (Return None,
    \<lparr>world = 3,
     trace =
       [EvNewClient None, EvNewStore (InMemoryTransactionTimeStore []) None, EvLoad (Inr 0),
        EvStartBulkDataExport 0 (Inr ''job''),
        EvMonitorJobStatus ''job'' [jobStatus True [(''Patient'', [''p1'', ''p2'']), (''Coverage'', [''c1''])]],
        EvSet 7, EvNewNDJSONSink ''out/'' ''data'' None,
        EvNewPipeline [] [NDJSONSink ''out/'' ''data''] None,
        EvGetData ''p1'' (Inr smallBody), EvProcess ''Patient'' ''p1'' ''a'' None,
        EvProcess ''Patient'' ''p1'' ''b'' None, EvErr ''p1'' None,
        EvGetData ''p2'' (Inr emptyBody), EvErr ''p2'' None,
        EvGetData ''c1'' (Inr smallBody), EvProcess ''Coverage'' ''c1'' ''a'' None,
        EvProcess ''Coverage'' ''c1'' ''b'' None, EvErr ''c1'' None,
        EvFinalize None, EvStore 7 None, EvCloseReader smallBody, EvCloseReader emptyBody,
        EvCloseReader smallBody, EvClose None],
     deferred = [], transactionTime = Some 7\<rparr>)"
  by (simp add: eval_simps smallBody_def emptyBody_def maxTokenSize_def)

lemma records_smallBody: "records smallBody = [''a'', ''b'']"
  by (simp add: records_def smallBody_def LF_def dropCR_def CR_def)

lemma run_timeout:
  "mainWrapper (scripted (\<lambda>_. Inr smallBody) None [jobStatus False []] (\<lambda>_. None))
       (config ''id'' ''secret'' [] []) (init 0) =
   (Return (Some (New (''BCDA Job did not finish before the timeout of '' @ jobStatusTimeout))),
    \<lparr>world = 0,
     trace =
       [EvNewClient None, EvNewStore (InMemoryTransactionTimeStore []) None, EvLoad (Inr 0),
        EvStartBulkDataExport 0 (Inr ''job''),
        EvMonitorJobStatus ''job'' [jobStatus False []], EvClose None],
     deferred = [], transactionTime = None\<rparr>)"
  by (simp add: eval_simps)

lemma maxTokenSize_large: "5119 \<le> maxTokenSize"
  by (simp add: maxTokenSize_def)

lemma record_longer_replicate:
  "c \<noteq> LF \<Longrightarrow> record_longer mx k (replicate n c) = (mx < k + n)"
  by (induction n arbitrary: k) auto

lemma bigBody_oversize: "hasOversizeRecord bigBody"
  by (simp add: hasOversizeRecord_def bigBody_def record_longer_replicate LF_def)

lemma mixedBody_oversize: "hasOversizeRecord mixedBody"
  by (simp add: hasOversizeRecord_def mixedBody_def record_longer_replicate LF_def)

lemma run_big:
  "mainWrapper (scripted (\<lambda>_. Inr bigBody) None
       [jobStatus True [(''Patient'', [''u1'', ''u2''])]] (\<lambda>_. None))
       (config ''id'' ''secret'' [] []) (init 0) =
   (Return (Some ErrTooLong),
    \<lparr>world = 1,
     trace =
       [EvNewClient None, EvNewStore (InMemoryTransactionTimeStore []) None, EvLoad (Inr 0),
        EvStartBulkDataExport 0 (Inr ''job''),
        EvMonitorJobStatus ''job'' [jobStatus True [(''Patient'', [''u1'', ''u2''])]],
        EvSet 7, EvNewNDJSONSink ''out/'' ''data'' None,
        EvNewPipeline [] [NDJSONSink ''out/'' ''data''] None,
        EvGetData ''u1'' (Inr bigBody), EvErr ''u1'' (Some ErrTooLong),
        EvCloseReader bigBody, EvClose None],
     deferred = [], transactionTime = Some 7\<rparr>)"
  by (simp add: eval_simps bigBody_def maxTokenSize_large)

lemma run_mixed:
  "mainWrapper (scripted (\<lambda>_. Inr mixedBody) None
       [jobStatus True [(''Patient'', [''u1'', ''u2''])]] (\<lambda>_. Some (New ''bad record'')))
       (config ''id'' ''secret'' [] []) (init 0) =
   (Return (Some (New ''bad record'')),
    \<lparr>world = 1,
     trace =
       [EvNewClient None, EvNewStore (InMemoryTransactionTimeStore []) None, EvLoad (Inr 0),
        EvStartBulkDataExport 0 (Inr ''job''),
        EvMonitorJobStatus ''job'' [jobStatus True [(''Patient'', [''u1'', ''u2''])]],
        EvSet 7, EvNewNDJSONSink ''out/'' ''data'' None,
        EvNewPipeline [] [NDJSONSink ''out/'' ''data''] None,
        EvGetData ''u1'' (Inr mixedBody),
        EvProcess ''Patient'' ''u1'' ''x'' (Some (New ''bad record'')),
        EvCloseReader mixedBody, EvClose None],
     deferred = [], transactionTime = Some 7\<rparr>)"
  by (simp add: eval_simps mixedBody_def maxTokenSize_large)

lemma unfinished: "\<not> IsComplete (Status (last [jobStatus False []]))"
  by (simp add: jobStatus_def)

lemma trace_init: "trace (init w) = []"
  by (simp add: init_def)

lemma fetch_unauthorized:
  "getDataOrExit (scripted (\<lambda>_. Inl ErrorUnauthorized) None [] (\<lambda>_. None))
      ''u'' ''id'' ''secret'' (init 0) =
   (Inl (Wrapf ''Unable to GetData(u) '' ErrorUnauthorized),
    \<lparr>world = 6,
     trace = [EvGetData ''u'' (Inl ErrorUnauthorized),
              EvSleep 2, EvAuthenticate None, EvGetData ''u'' (Inl ErrorUnauthorized),
              EvSleep 2, EvAuthenticate None, EvGetData ''u'' (Inl ErrorUnauthorized),
              EvSleep 2, EvAuthenticate None, EvGetData ''u'' (Inl ErrorUnauthorized),
              EvSleep 2, EvAuthenticate None, EvGetData ''u'' (Inl ErrorUnauthorized),
              EvSleep 2, EvAuthenticate None, EvGetData ''u'' (Inl ErrorUnauthorized)],
     deferred = [], transactionTime = None\<rparr>)"
  by (simp add: eval_simps)

lemma fetch_auth_down:
  "getDataOrExit (scripted (\<lambda>_. Inl ErrorUnauthorized) (Some (New ''auth down'')) []
      (\<lambda>_. None)) ''u'' ''id'' ''secret'' (init 0) =
   (Inl (Wrapf ''Error authenticating with API: '' (New ''auth down'')),
    \<lparr>world = 1,
     trace = [EvGetData ''u'' (Inl ErrorUnauthorized), EvSleep 2,
              EvAuthenticate (Some (New ''auth down''))],
     deferred = [], transactionTime = None\<rparr>)"
  by (simp add: eval_simps)




section \<open>Properties\<close>

subsection \<open>The checkpoint is stored only after everything else succeeded\<close>

text \<open>
  C1. In every run of \<^verbatim>\<open>mainWrapper\<close> the checkpoint store's \<^verbatim>\<open>Store\<close> is called if and
  only if \<^verbatim>\<open>Finalize\<close> succeeded and every result URL of the completed job was downloaded
  and scanned to its end with every record of every stream handed to the pipeline and
  processed without error (and \<^verbatim>\<open>Finalize\<close> is only reached after such a download: the
  work of the run is then the download of each URL followed by its records, in order).
  \<^verbatim>\<open>Store\<close> is called at most once, right after the successful \<^verbatim>\<open>Finalize\<close> and followed
  only by the deferred closes, with the transaction time of the job's last status, and
  the run returns its result. A failure of any step (a re-authentication, the scanner,
  the pipeline on a record, \<^verbatim>\<open>Finalize\<close>) makes the run return that error with \<^verbatim>\<open>Store\<close>
  never called; so does a last download that failed, where the error is that of the
  download or of the re-authentication after it.
\<close>

theorem C1_store_after_success:
  assumes run: "mainWrapper env cfg (init w) = (out, s')"
  shows "((\<exists>t r. EvStore t r \<in> set (trace s')) \<longleftrightarrow>
            EvFinalize None \<in> set (trace s') \<and> downloads_complete (trace s')) \<and>
         (EvFinalize None \<in> set (trace s') \<longrightarrow> downloads_complete (trace s')) \<and>
         length (storeCalls (trace s')) \<le> 1 \<and>
         (\<forall>t r. EvStore t r \<in> set (trace s') \<longrightarrow>
            out = Return (map_option (Errorf ''failed to store transaction timestamp: '') r) \<and>
            (\<exists>pre u rs closes. trace s' = pre @ EvFinalize None # EvStore t r # closes \<and>
               list_all close_event closes \<and> EvMonitorJobStatus u rs \<in> set pre \<and>
               rs \<noteq> [] \<and> t = TransactionTime (Status (last rs)))) \<and>
         (\<forall>ev \<in> set (trace s'). \<forall>e. failure_of ev = Some e \<longrightarrow>
            out = Return (Some e) \<and> storeCalls (trace s') = []) \<and>
         (\<forall>u e. lastGet (trace s') = Some (u, Inl e) \<longrightarrow>
            storeCalls (trace s') = [] \<and>
            (out = Return (Some (Wrapf (''Unable to GetData('' @ u @ '') '') e)) \<or>
             (\<exists>a. EvAuthenticate (Some a) \<in> set (trace s') \<and>
                  out = Return (Some (Wrapf ''Error authenticating with API: '' a))))) \<and>
         (\<forall>u rs. EvMonitorJobStatus u rs \<in> set (trace s') \<longrightarrow> rs \<noteq> [] \<longrightarrow>
            EvFinalize None \<in> set (trace s') \<longrightarrow>
            length (okStreams (trace s')) = length (targets (ResultURLs (Status (last rs)))) \<and>
            work (trace s') =
              expected (targets (ResultURLs (Status (last rs)))) (okStreams (trace s')))"
proof -
  note m = main_spec [OF run]
  note a = store_iff_finalized [OF m]
  show ?thesis
    apply (intro conjI allI ballI impI)
             apply (rule a [THEN conjunct1])
            apply (erule a [THEN conjunct2, THEN conjunct1, rule_format])
           apply (rule a [THEN conjunct2, THEN conjunct2])
          apply (erule store_is_last [OF m, THEN conjunct1])
         apply (erule store_is_last [OF m, THEN conjunct2])
        apply (erule (1) failure_aborts [OF m, THEN conjunct1])
       apply (erule (1) failure_aborts [OF m, THEN conjunct2])
      apply (erule fetch_failure_aborts [OF m, THEN conjunct1])
     apply (erule fetch_failure_aborts [OF m, THEN conjunct2])
    apply (erule (2) run_work(3) [OF m, THEN conjunct1])
    apply (erule (2) run_work(3) [OF m, THEN conjunct2])
    done
qed

theorem C1_store_after_success_witness:
  "fst (mainWrapper (scripted (\<lambda>_. Inr smallBody) None
          [jobStatus True [(''Patient'', [''u1''])]] (\<lambda>_. None))
          (config ''id'' ''secret'' [] []) (init 0)) = Return None \<and>
   EvFinalize None \<in> set (trace (snd (mainWrapper (scripted (\<lambda>_. Inr smallBody) None
          [jobStatus True [(''Patient'', [''u1''])]] (\<lambda>_. None))
          (config ''id'' ''secret'' [] []) (init 0)))) \<and>
   downloads_complete (trace (snd (mainWrapper (scripted (\<lambda>_. Inr smallBody) None
          [jobStatus True [(''Patient'', [''u1''])]] (\<lambda>_. None))
          (config ''id'' ''secret'' [] []) (init 0)))) \<and>
   storeCalls (trace (snd (mainWrapper (scripted (\<lambda>_. Inr smallBody) None
          [jobStatus True [(''Patient'', [''u1''])]] (\<lambda>_. None))
          (config ''id'' ''secret'' [] []) (init 0)))) = [(7, None)] \<and>
   records smallBody = [''a'', ''b''] \<and>
   work (trace (snd (mainWrapper (scripted (\<lambda>_. Inr smallBody) None
          [jobStatus True [(''Patient'', [''u1''])]] (\<lambda>_. None))
          (config ''id'' ''secret'' [] []) (init 0)))) =
     [EvGetData ''u1'' (Inr smallBody), EvProcess ''Patient'' ''u1'' ''a'' None,
      EvProcess ''Patient'' ''u1'' ''b'' None, EvErr ''u1'' None]"
  using C1_store_after_success [OF run_ok] by (simp add: run_ok records_smallBody work_def)

subsection \<open>A fetch whose downloads all fail\<close>

text \<open>
  C2, with the condition the code needs. For every URL, if every download of a fetch
  fails with an unauthorized or retryable classification and every re-authentication
  succeeds, the fetch makes exactly 5 retries after the first download, each one a sleep
  of two seconds, a re-authentication and a download, and returns the error of the last
  download wrapped with the URL. Without the condition on the re-authentications the
  statement fails: when the first re-authentication fails the fetch ends after a single
  download, with the authentication error.
\<close>

theorem C2_retries_exhausted:
  assumes run: "getDataOrExit env url cid cs s = (res, s')" and tr: "trace s' = trace s @ evs"
    and dl: "list_all retryable (getDataResults evs)"
    and au: "list_all (\<lambda>r. r = None) (authResults evs)"
  shows "\<exists>r0 rs e. evs = EvGetData url r0 # concat (map (retry_events url) rs) \<and>
           length rs = 5 \<and> last (r0 # rs) = Inl e \<and>
           res = Inl (Wrapf (''Unable to GetData('' @ url @ '') '') e)"
proof -
  from fetch_events_unique [OF run tr] obtain r0 rs where
    rs: "list_all retryable (butlast (r0 # rs))" "length rs \<le> maxRetries" and
    c: "case res of
           Inr rd \<Rightarrow> evs = EvGetData url r0 # concat (map (retry_events url) rs) \<and>
                     last (r0 # rs) = Inr rd
         | Inl e \<Rightarrow>
             (\<exists>e0. evs = EvGetData url r0 # concat (map (retry_events url) rs) \<and>
                   last (r0 # rs) = Inl e0 \<and>
                   e = Wrapf (''Unable to GetData('' @ url @ '') '') e0 \<and>
                   (retryable (Inl e0) \<longrightarrow> length rs = maxRetries)) \<or>
             (\<exists>a. evs = EvGetData url r0 # concat (map (retry_events url) rs) @
                               [EvSleep 2, EvAuthenticate (Some a)] \<and>
                   e = Wrapf ''Error authenticating with API: '' a \<and>
                   retryable (last (r0 # rs)) \<and> length rs < maxRetries)"
    unfolding fetch_exact_def by blast
  have g: "getDataResults (EvGetData url r0 # concat (map (retry_events url) rs) @ tl) =
      r0 # rs @ getDataResults tl" for tl
    by (simp add: getDataResults_append getDataResults_retries)
  have l: "last (r0 # rs) \<in> set (r0 # rs)" by (rule last_in_set) simp
  show ?thesis
  proof (cases res)
    case (Inr rd)
    with c have e: "evs = EvGetData url r0 # concat (map (retry_events url) rs)"
      "last (r0 # rs) = Inr rd" by simp_all
    from dl g [of "[]"] have "list_all retryable (r0 # rs)" by (simp add: e(1))
    with l have "retryable (last (r0 # rs))" unfolding list_all_iff by blast
    with e(2) show ?thesis by (simp add: retryable_def)
  next
    case (Inl e)
    with c consider
      (get) e0 where "evs = EvGetData url r0 # concat (map (retry_events url) rs)"
        "last (r0 # rs) = Inl e0" "e = Wrapf (''Unable to GetData('' @ url @ '') '') e0"
        "retryable (Inl e0) \<longrightarrow> length rs = maxRetries"
    | (auth) a where "evs = EvGetData url r0 # concat (map (retry_events url) rs) @
                               [EvSleep 2, EvAuthenticate (Some a)]"
      by auto
    then show ?thesis
    proof cases
      case get
      from dl g [of "[]"] have "list_all retryable (r0 # rs)" by (simp add: get(1))
      with l have "retryable (last (r0 # rs))" unfolding list_all_iff by blast
      with get(2,4) have "length rs = 5" by (simp add: maxRetries_def)
      with get Inl show ?thesis by blast
    next
      case auth
      with au show ?thesis by (simp add: authResults_append)
    qed
  qed
qed

theorem C2_retries_exhausted_witness:
  "list_all retryable (getDataResults (trace (snd (getDataOrExit
      (scripted (\<lambda>_. Inl ErrorUnauthorized) None [] (\<lambda>_. None))
      ''u'' ''id'' ''secret'' (init 0))))) \<and>
   list_all (\<lambda>r. r = None) (authResults (trace (snd (getDataOrExit
      (scripted (\<lambda>_. Inl ErrorUnauthorized) None [] (\<lambda>_. None))
      ''u'' ''id'' ''secret'' (init 0))))) \<and>
   length (getDataResults (trace (snd (getDataOrExit
      (scripted (\<lambda>_. Inl ErrorUnauthorized) None [] (\<lambda>_. None))
      ''u'' ''id'' ''secret'' (init 0))))) = 6 \<and>
   fst (getDataOrExit (scripted (\<lambda>_. Inl ErrorUnauthorized) None [] (\<lambda>_. None))
      ''u'' ''id'' ''secret'' (init 0)) =
     Inl (Wrapf ''Unable to GetData(u) '' ErrorUnauthorized)"
  using C2_retries_exhausted [OF fetch_unauthorized, of
      "[EvGetData ''u'' (Inl ErrorUnauthorized),
              EvSleep 2, EvAuthenticate None, EvGetData ''u'' (Inl ErrorUnauthorized),
              EvSleep 2, EvAuthenticate None, EvGetData ''u'' (Inl ErrorUnauthorized),
              EvSleep 2, EvAuthenticate None, EvGetData ''u'' (Inl ErrorUnauthorized),
              EvSleep 2, EvAuthenticate None, EvGetData ''u'' (Inl ErrorUnauthorized),
              EvSleep 2, EvAuthenticate None, EvGetData ''u'' (Inl ErrorUnauthorized)]"]
  by (simp add: fetch_unauthorized trace_init retryable_def)

theorem C2_retries_exhausted_counterexample:
  "list_all retryable (getDataResults (trace (snd (getDataOrExit
      (scripted (\<lambda>_. Inl ErrorUnauthorized) (Some (New ''auth down'')) [] (\<lambda>_. None))
      ''u'' ''id'' ''secret'' (init 0))))) \<and>
   length (getDataResults (trace (snd (getDataOrExit
      (scripted (\<lambda>_. Inl ErrorUnauthorized) (Some (New ''auth down'')) [] (\<lambda>_. None))
      ''u'' ''id'' ''secret'' (init 0))))) = 1 \<and>
   fst (getDataOrExit
      (scripted (\<lambda>_. Inl ErrorUnauthorized) (Some (New ''auth down'')) [] (\<lambda>_. None))
      ''u'' ''id'' ''secret'' (init 0)) =
     Inl (Wrapf ''Error authenticating with API: '' (New ''auth down''))"
  by (simp add: fetch_auth_down retryable_def)

subsection \<open>A job that does not complete\<close>

text \<open>
  C3. In every run in which the monitor's results end with a status whose completion flag
  is false, \<^verbatim>\<open>mainWrapper\<close> returns the timeout error of line 180; the monitor is the last
  call before the deferred closes, so that nothing is downloaded and the checkpoint
  store's \<^verbatim>\<open>Store\<close> is not called.
\<close>

theorem C3_timeout:
  assumes run: "mainWrapper env cfg (init w) = (out, s')"
    and mon: "EvMonitorJobStatus u rs \<in> set (trace s')"
    and ne: "rs \<noteq> []" and inc: "\<not> IsComplete (Status (last rs))"
  shows "out = Return (Some (New (''BCDA Job did not finish before the timeout of '' @
                                    jobStatusTimeout))) \<and>
         (\<exists>ini closes. trace s' = ini @ EvMonitorJobStatus u rs # closes \<and>
            list_all setup_event ini \<and> list_all close_event closes) \<and>
         getDataResults (trace s') = [] \<and> (\<forall>t r. EvStore t r \<notin> set (trace s'))"
  using main_spec [OF run]
proof (cases rule: main_ok_cases)
  case (early ini closes e)
  with mon setup_not(5) [OF early(2)] close_not(5) [OF early(3)] show ?thesis by auto
next
  case (noresult ini u' closes)
  with mon ne setup_not(5) [OF noresult(2)] close_not(5) [OF noresult(3)] show ?thesis by auto
next
  case (timeout ini u' rs' closes)
  with mon setup_not(5) [OF timeout(2)] close_not(5) [OF timeout(3)]
  have eq: "u' = u" "rs' = rs" by auto
  have "getDataResults (trace s') = []"
    using setup_not(1) [OF timeout(2)] close_not(1) [OF timeout(3)]
    by (intro getDataResults_none) (auto simp: timeout(1))
  moreover have "\<forall>t r. EvStore t r \<notin> set (trace s')"
    using setup_not(3) [OF timeout(2)] close_not(3) [OF timeout(3)]
    by (auto simp: timeout(1))
  ultimately show ?thesis
    using timeout eq by (auto simp: timeoutError_def)
next
  case (build ini u' rs' bld closes e)
  with mon inc setup_not(5) [OF build(2)] close_not(5) [OF build(3)] build_not(5) [OF build(6)]
  show ?thesis by auto
next
  case (download ini u' rs' bld dl fin closes res)
  with mon inc setup_not(5) [OF download(2)] close_not(5) [OF download(3)]
    build_not(5) [OF download(6)] dl_not(4) [OF dl_okD(1) [OF download(7)]]
    finish_not(3) [OF download(8)]
  show ?thesis by auto
qed

theorem C3_timeout_witness:
  "EvMonitorJobStatus ''job'' [jobStatus False []] \<in>
     set (trace (snd (mainWrapper (scripted (\<lambda>_. Inr smallBody) None [jobStatus False []]
          (\<lambda>_. None)) (config ''id'' ''secret'' [] []) (init 0)))) \<and>
   [jobStatus False []] \<noteq> [] \<and>
   \<not> IsComplete (Status (last [jobStatus False []])) \<and>
   fst (mainWrapper (scripted (\<lambda>_. Inr smallBody) None [jobStatus False []]
          (\<lambda>_. None)) (config ''id'' ''secret'' [] []) (init 0)) =
     Return (Some (New (''BCDA Job did not finish before the timeout of '' @
                         jobStatusTimeout))) \<and>
   getDataResults (trace (snd (mainWrapper (scripted (\<lambda>_. Inr smallBody) None
          [jobStatus False []] (\<lambda>_. None)) (config ''id'' ''secret'' [] []) (init 0)))) = []"
  using C3_timeout [OF run_timeout, of "''job''" "[jobStatus False []]"] unfinished
  by (simp add: run_timeout)

subsection \<open>The order of the downloads\<close>

text \<open>
  C4, as the code has it. The download loops visit the entries of the result URLs in the
  order in which \<^verbatim>\<open>range\<close> yields them, and the URLs of an entry in the order of their
  list. The URLs downloaded are an initial part of the concatenation of the lists in that
  order, and the work of the run (each download followed by the records of its stream
  handed to the pipeline, in order) is an initial part of the work on these URLs; it is
  all of it when the run reaches \<^verbatim>\<open>Finalize\<close>. The order is fixed by that order of the
  entries and not by the map alone: two runs over the same entries, yielded in different
  orders, download the URLs in different orders.
\<close>

theorem C4_download_order:
  assumes run: "mainWrapper env cfg (init w) = (out, s')"
    and mon: "EvMonitorJobStatus u rs \<in> set (trace s')" and ne: "rs \<noteq> []"
  shows "(\<exists>rest. concat (map snd (ResultURLs (Status (last rs)))) = okURLs (trace s') @ rest) \<and>
         length (okStreams (trace s')) \<le> length (targets (ResultURLs (Status (last rs)))) \<and>
         (\<exists>rest. work (trace s') @ rest =
            expected (targets (ResultURLs (Status (last rs)))) (okStreams (trace s'))) \<and>
         (\<forall>r. EvFinalize r \<in> set (trace s') \<longrightarrow>
            okURLs (trace s') = concat (map snd (ResultURLs (Status (last rs)))) \<and>
            length (okStreams (trace s')) = length (targets (ResultURLs (Status (last rs)))) \<and>
            work (trace s') =
              expected (targets (ResultURLs (Status (last rs)))) (okStreams (trace s')))"
proof -
  note m = main_spec [OF run]
  note o = urls_in_order [OF m mon ne]
  note w = run_work [OF m mon ne]
  from o w show ?thesis by blast
qed

theorem C4_download_order_witness:
  "EvMonitorJobStatus ''job'' [jobStatus True [(''Patient'', [''p1'', ''p2'']), (''Coverage'', [''c1''])]] \<in>
     set (trace (snd (mainWrapper (scripted (\<lambda>n. if n = Suc 0 then Inr emptyBody else Inr smallBody) None
          [jobStatus True [(''Patient'', [''p1'', ''p2'']), (''Coverage'', [''c1''])]] (\<lambda>_. None))
          (config ''id'' ''secret'' [] []) (init 0)))) \<and>
   EvFinalize None \<in> set (trace (snd (mainWrapper (scripted (\<lambda>n. if n = Suc 0 then Inr emptyBody else Inr smallBody) None
          [jobStatus True [(''Patient'', [''p1'', ''p2'']), (''Coverage'', [''c1''])]] (\<lambda>_. None))
          (config ''id'' ''secret'' [] []) (init 0)))) \<and>
   okURLs (trace (snd (mainWrapper (scripted (\<lambda>n. if n = Suc 0 then Inr emptyBody else Inr smallBody) None
          [jobStatus True [(''Patient'', [''p1'', ''p2'']), (''Coverage'', [''c1''])]] (\<lambda>_. None))
          (config ''id'' ''secret'' [] []) (init 0)))) = [''p1'', ''p2'', ''c1''] \<and>
   work (trace (snd (mainWrapper (scripted (\<lambda>n. if n = Suc 0 then Inr emptyBody else Inr smallBody) None
          [jobStatus True [(''Patient'', [''p1'', ''p2'']), (''Coverage'', [''c1''])]] (\<lambda>_. None))
          (config ''id'' ''secret'' [] []) (init 0)))) =
     [EvGetData ''p1'' (Inr smallBody), EvProcess ''Patient'' ''p1'' ''a'' None,
      EvProcess ''Patient'' ''p1'' ''b'' None, EvErr ''p1'' None,
      EvGetData ''p2'' (Inr emptyBody), EvErr ''p2'' None,
      EvGetData ''c1'' (Inr smallBody), EvProcess ''Coverage'' ''c1'' ''a'' None,
      EvProcess ''Coverage'' ''c1'' ''b'' None, EvErr ''c1'' None] \<and>
   work (trace (snd (mainWrapper (scripted (\<lambda>n. if n = Suc 0 then Inr emptyBody else Inr smallBody) None
          [jobStatus True [(''Patient'', [''p1'', ''p2'']), (''Coverage'', [''c1''])]] (\<lambda>_. None))
          (config ''id'' ''secret'' [] []) (init 0)))) =
     expected (targets (ResultURLs (Status (last [jobStatus True [(''Patient'', [''p1'', ''p2'']), (''Coverage'', [''c1''])]]))))
       (okStreams (trace (snd (mainWrapper (scripted (\<lambda>n. if n = Suc 0 then Inr emptyBody else Inr smallBody) None
          [jobStatus True [(''Patient'', [''p1'', ''p2'']), (''Coverage'', [''c1''])]] (\<lambda>_. None))
          (config ''id'' ''secret'' [] []) (init 0)))))"
  using C4_download_order [OF run_two, of "''job''"
      "[jobStatus True [(''Patient'', [''p1'', ''p2'']), (''Coverage'', [''c1''])]]"]
  by (simp add: run_two work_def)

theorem C4_download_order_counterexample:
  "set [(''Patient'', [''p'']), (''Coverage'', [''c''])] =
     set [(''Coverage'', [''c'']), (''Patient'', [''p''])] \<and>
   distinct (map fst [(''Patient'', [''p'']), (''Coverage'', [''c''])]) \<and>
   distinct (map fst [(''Coverage'', [''c'']), (''Patient'', [''p''])]) \<and>
   fst (mainWrapper (scripted (\<lambda>_. Inr emptyBody) None
          [jobStatus True [(''Patient'', [''p'']), (''Coverage'', [''c''])]] (\<lambda>_. None))
          (config ''id'' ''secret'' [] []) (init 0)) = Return None \<and>
   fst (mainWrapper (scripted (\<lambda>_. Inr emptyBody) None
          [jobStatus True [(''Coverage'', [''c'']), (''Patient'', [''p''])]] (\<lambda>_. None))
          (config ''id'' ''secret'' [] []) (init 0)) = Return None \<and>
   okURLs (trace (snd (mainWrapper (scripted (\<lambda>_. Inr emptyBody) None
          [jobStatus True [(''Patient'', [''p'']), (''Coverage'', [''c''])]] (\<lambda>_. None))
          (config ''id'' ''secret'' [] []) (init 0)))) = [''p'', ''c''] \<and>
   okURLs (trace (snd (mainWrapper (scripted (\<lambda>_. Inr emptyBody) None
          [jobStatus True [(''Coverage'', [''c'']), (''Patient'', [''p''])]] (\<lambda>_. None))
          (config ''id'' ''secret'' [] []) (init 0)))) = [''c'', ''p''] \<and>
   [''p'', ''c''] \<noteq> [''c'', ''p'']"
  by (simp add: eval_simps emptyBody_def insert_commute)

subsection \<open>Missing credentials\<close>

text \<open>
  C5. For every configuration in which the client ID or the client secret is empty, the
  run fails with the configuration error of line 110 before any client is constructed
  or any remote call is made: the state of the run, with its world and its empty trace,
  is returned as it was.
\<close>

theorem C5_missing_credentials:
  "clientID cfg = [] \<or> clientSecret cfg = [] \<Longrightarrow>
   mainWrapper env cfg (init w) =
     (Return (Some (New ''both clientID and clientSecret flags must be non-empty'')), init w)"
  by (auto simp: mainWrapper_def mainWrapper_body_def mainWrapper_flags_def init_def)

theorem C5_missing_credentials_witness:
  "clientID (config [] ''secret'' [] []) = [] \<and>
   mainWrapper (scripted (\<lambda>_. Inl ErrorUnauthorized) None [] (\<lambda>_. None))
       (config [] ''secret'' [] []) (init 0) =
     (Return (Some (New ''both clientID and clientSecret flags must be non-empty'')), init 0)"
  using C5_missing_credentials [of "config [] ''secret'' [] []"
      "scripted (\<lambda>_. Inl ErrorUnauthorized) None [] (\<lambda>_. None)" 0]
  by (simp add: config_def)

subsection \<open>The transaction time box\<close>

text \<open>
  C6. In every run of \<^verbatim>\<open>mainWrapper\<close> the transaction time box is set at most once, and
  its final content is the one set, or nothing. It is set right after the monitor, only
  when the monitor's last status reports complete, to the transaction time of that
  status, and never before or after that; a run whose monitor ends without a complete
  status, or that fails before the monitor, never sets it.
\<close>

theorem C6_transaction_time_set_once:
  assumes run: "mainWrapper env cfg (init w) = (out, s')"
  shows "length (setCalls (trace s')) \<le> 1 \<and>
         transactionTime s' =
           (if setCalls (trace s') = [] then None else Some (last (setCalls (trace s')))) \<and>
         (\<forall>t. EvSet t \<in> set (trace s') \<longrightarrow>
            (\<exists>pre u rs post. trace s' = pre @ EvMonitorJobStatus u rs # EvSet t # post \<and>
               rs \<noteq> [] \<and> IsComplete (Status (last rs)) \<and>
               t = TransactionTime (Status (last rs)) \<and>
               setCalls pre = [] \<and> setCalls post = [])) \<and>
         (\<forall>u rs. EvMonitorJobStatus u rs \<in> set (trace s') \<longrightarrow>
            setCalls (trace s') =
              (if rs \<noteq> [] \<and> IsComplete (Status (last rs))
               then [TransactionTime (Status (last rs))] else [])) \<and>
         ((\<forall>u rs. EvMonitorJobStatus u rs \<notin> set (trace s')) \<longrightarrow> setCalls (trace s') = [])"
proof -
  from set_shape [OF main_spec [OF run]] show ?thesis
  proof
    assume a: "setCalls (trace s') = [] \<and> transactionTime s' = None \<and>
      (\<forall>u rs. EvMonitorJobStatus u rs \<in> set (trace s') \<longrightarrow>
         rs = [] \<or> \<not> IsComplete (Status (last rs)))"
    then have "\<forall>t. EvSet t \<notin> set (trace s')" by (simp add: setCalls_empty_iff)
    with a show ?thesis by auto
  next
    assume "\<exists>pre u rs post. trace s' = pre @ EvMonitorJobStatus u rs #
              EvSet (TransactionTime (Status (last rs))) # post \<and>
            rs \<noteq> [] \<and> IsComplete (Status (last rs)) \<and>
            transactionTime s' = Some (TransactionTime (Status (last rs))) \<and>
            (\<forall>t. EvSet t \<notin> set pre) \<and> (\<forall>t. EvSet t \<notin> set post) \<and>
            (\<forall>j rs'. EvMonitorJobStatus j rs' \<notin> set pre) \<and>
            (\<forall>j rs'. EvMonitorJobStatus j rs' \<notin> set post)"
    then obtain pre u rs post where b:
      "trace s' = pre @ EvMonitorJobStatus u rs # EvSet (TransactionTime (Status (last rs))) # post"
      "rs \<noteq> []" "IsComplete (Status (last rs))"
      "transactionTime s' = Some (TransactionTime (Status (last rs)))"
      "\<forall>t. EvSet t \<notin> set pre" "\<forall>t. EvSet t \<notin> set post"
      "\<forall>j rs'. EvMonitorJobStatus j rs' \<notin> set pre"
      "\<forall>j rs'. EvMonitorJobStatus j rs' \<notin> set post" by blast
    have sp: "setCalls pre = []" "setCalls post = []"
      using b(5,6) by (simp_all add: setCalls_empty_iff)
    have sc: "setCalls (trace s') = [TransactionTime (Status (last rs))]"
      by (simp add: b(1) setCalls_append sp)
    have m: "\<And>j rs'. EvMonitorJobStatus j rs' \<in> set (trace s') \<Longrightarrow> j = u \<and> rs' = rs"
      using b(7,8) by (auto simp: b(1))
    have 3: "\<forall>t. EvSet t \<in> set (trace s') \<longrightarrow>
            (\<exists>pre u rs post. trace s' = pre @ EvMonitorJobStatus u rs # EvSet t # post \<and>
               rs \<noteq> [] \<and> IsComplete (Status (last rs)) \<and>
               t = TransactionTime (Status (last rs)) \<and>
               setCalls pre = [] \<and> setCalls post = [])"
    proof (intro allI impI)
      fix t assume "EvSet t \<in> set (trace s')"
      then have "t = TransactionTime (Status (last rs))"
        using b(5,6) by (auto simp: b(1))
      then show "\<exists>pre u rs post. trace s' = pre @ EvMonitorJobStatus u rs # EvSet t # post \<and>
               rs \<noteq> [] \<and> IsComplete (Status (last rs)) \<and>
               t = TransactionTime (Status (last rs)) \<and>
               setCalls pre = [] \<and> setCalls post = []"
        using b(1,2,3) sp by blast
    qed
    have 4: "\<forall>u rs. EvMonitorJobStatus u rs \<in> set (trace s') \<longrightarrow>
            setCalls (trace s') =
              (if rs \<noteq> [] \<and> IsComplete (Status (last rs))
               then [TransactionTime (Status (last rs))] else [])"
      using m b(2,3) sc by auto
    have 5: "(\<forall>u rs. EvMonitorJobStatus u rs \<notin> set (trace s')) \<longrightarrow> setCalls (trace s') = []"
      by (auto simp: b(1))
    show ?thesis
      using sc b(4) 3 4 5 by simp
  qed
qed

theorem C6_transaction_time_set_once_witness:
  "setCalls (trace (snd (mainWrapper (scripted (\<lambda>_. Inr smallBody) None
          [jobStatus True [(''Patient'', [''u1''])]] (\<lambda>_. None))
          (config ''id'' ''secret'' [] []) (init 0)))) = [7] \<and>
   transactionTime (snd (mainWrapper (scripted (\<lambda>_. Inr smallBody) None
          [jobStatus True [(''Patient'', [''u1''])]] (\<lambda>_. None))
          (config ''id'' ''secret'' [] []) (init 0))) = Some 7"
  using C6_transaction_time_set_once [OF run_ok] by (simp add: run_ok)

subsection \<open>Oversize records\<close>

text \<open>
  C7, as the code has it. When a run downloads a stream with a record larger than the
  maximum record size (500 KiB), the run fails: with the scanner's \<^verbatim>\<open>ErrTooLong\<close>, or with
  the error the pipeline returned for an earlier record of that stream. After that
  download only records of that stream are processed before the deferred closes, so no
  further URL is downloaded, and the checkpoint store's \<^verbatim>\<open>Store\<close> is not called. The
  error need not be the parse error: a stream whose first record the pipeline rejects
  ends the run with the pipeline's error.
\<close>

theorem C7_oversize_record:
  assumes run: "mainWrapper env cfg (init w) = (out, s')"
    and tr: "trace s' = pre @ EvGetData u (Inr r) # post"
    and big: "hasOversizeRecord r"
  shows "(\<exists>e. out = Return (Some e) \<and>
              (e = ErrTooLong \<or> (\<exists>rt tok. EvProcess rt u tok (Some e) \<in> set post))) \<and>
         list_all (\<lambda>ev. scan_event ev \<or> close_event ev) post \<and>
         storeCalls (trace s') = []"
  using main_spec [OF run]
proof (cases rule: run_cases)
  case idle
  from idle_no_get [OF idle, of u "Inr r"] tr show ?thesis by simp
next
  case (aborted A dl closes e urls)
  have "pre @ EvGetData u (Inr r) # post = A @ dl @ closes"
    using tr aborted(1) by simp
  from mid_split [OF this idle_no_get [OF aborted(2)] idle_no_get [OF idle_list(3) [OF aborted(3)]]]
  obtain p q where pq: "dl = p @ EvGetData u (Inr r) # q" "pre = A @ p" "post = q @ closes"
    by blast
  from after_oversize_at [OF dl_okD(9) [OF aborted(4), unfolded pq(1)] big]
  have q: "list_all scan_event q"
    "e = ErrTooLong \<or> (\<exists>rt tok. q \<noteq> [] \<and> last q = EvProcess rt u tok (Some e))"
    by auto
  have 1: "e = ErrTooLong \<or> (\<exists>rt tok. EvProcess rt u tok (Some e) \<in> set post)"
  proof (cases "e = ErrTooLong")
    case False
    with q(2) obtain rt tok where "q \<noteq> []" "last q = EvProcess rt u tok (Some e)" by blast
    then have "EvProcess rt u tok (Some e) \<in> set q" by (metis last_in_set)
    then show ?thesis by (auto simp: pq(3))
  qed simp
  have 2: "list_all (\<lambda>ev. scan_event ev \<or> close_event ev) post"
    using q(1) aborted(3) by (auto simp: pq(3) list_all_iff)
  from 1 2 aborted(5) aborted_obs(1) [OF aborted(1-4)] show ?thesis by simp
next
  case (unfinalized A dl closes e urls)
  have "pre @ EvGetData u (Inr r) # post = A @ dl @ (EvFinalize (Some e) # closes)"
    using tr unfinalized(1) by simp
  from mid_split [OF this idle_no_get [OF unfinalized(2)]]
    idle_no_get [OF idle_list(3) [OF unfinalized(3)], of u "Inr r"]
  obtain p q where pq: "dl = p @ EvGetData u (Inr r) # q" by auto
  from after_oversize_at [OF dl_okD(9) [OF unfinalized(4), unfolded pq(1)] big]
  show ?thesis by simp
next
  case (stored A dl closes r' u' rs)
  have "pre @ EvGetData u (Inr r) # post =
      A @ dl @ (EvFinalize None # EvStore (TransactionTime (Status (last rs))) r' # closes)"
    using tr stored(1) by simp
  from mid_split [OF this idle_no_get [OF stored(2)]]
    idle_no_get [OF idle_list(3) [OF stored(3)], of u "Inr r"]
  obtain p q where pq: "dl = p @ EvGetData u (Inr r) # q" by auto
  from after_oversize_at [OF dl_okD(9) [OF stored(4), unfolded pq(1)] big]
  show ?thesis by simp
qed

theorem C7_oversize_record_witness:
  "hasOversizeRecord bigBody \<and>
   EvGetData ''u1'' (Inr bigBody) \<in> set (trace (snd (mainWrapper
      (scripted (\<lambda>_. Inr bigBody) None [jobStatus True [(''Patient'', [''u1'', ''u2''])]]
         (\<lambda>_. None)) (config ''id'' ''secret'' [] []) (init 0)))) \<and>
   fst (mainWrapper
      (scripted (\<lambda>_. Inr bigBody) None [jobStatus True [(''Patient'', [''u1'', ''u2''])]]
         (\<lambda>_. None)) (config ''id'' ''secret'' [] []) (init 0)) = Return (Some ErrTooLong) \<and>
   getDataResults (trace (snd (mainWrapper
      (scripted (\<lambda>_. Inr bigBody) None [jobStatus True [(''Patient'', [''u1'', ''u2''])]]
         (\<lambda>_. None)) (config ''id'' ''secret'' [] []) (init 0)))) = [Inr bigBody] \<and>
   storeCalls (trace (snd (mainWrapper
      (scripted (\<lambda>_. Inr bigBody) None [jobStatus True [(''Patient'', [''u1'', ''u2''])]]
         (\<lambda>_. None)) (config ''id'' ''secret'' [] []) (init 0)))) = []"
  using C7_oversize_record [OF run_big _ bigBody_oversize,
      of "[EvNewClient None, EvNewStore (InMemoryTransactionTimeStore []) None, EvLoad (Inr 0),
        EvStartBulkDataExport 0 (Inr ''job''),
        EvMonitorJobStatus ''job'' [jobStatus True [(''Patient'', [''u1'', ''u2''])]],
        EvSet 7, EvNewNDJSONSink ''out/'' ''data'' None,
        EvNewPipeline [] [NDJSONSink ''out/'' ''data''] None]" "''u1''"
        "[EvErr ''u1'' (Some ErrTooLong), EvCloseReader bigBody, EvClose None]"]
    bigBody_oversize
  by (simp add: run_big)

theorem C7_oversize_record_counterexample:
  "hasOversizeRecord mixedBody \<and>
   EvGetData ''u1'' (Inr mixedBody) \<in> set (trace (snd (mainWrapper
      (scripted (\<lambda>_. Inr mixedBody) None [jobStatus True [(''Patient'', [''u1'', ''u2''])]]
         (\<lambda>_. Some (New ''bad record''))) (config ''id'' ''secret'' [] []) (init 0)))) \<and>
   fst (mainWrapper
      (scripted (\<lambda>_. Inr mixedBody) None [jobStatus True [(''Patient'', [''u1'', ''u2''])]]
         (\<lambda>_. Some (New ''bad record''))) (config ''id'' ''secret'' [] []) (init 0)) =
     Return (Some (New ''bad record'')) \<and>
   New ''bad record'' \<noteq> ErrTooLong"
  using mixedBody_oversize by (simp add: run_mixed)

subsection \<open>Three unauthorized downloads, then a success\<close>




subsection \<open>More than one checkpoint source\<close>

text \<open>
  C9, as the code has it. The checkpoint sources of the code are the \<^verbatim>\<open>since\<close> flag and
  the \<^verbatim>\<open>since_file\<close> flag (a local path, or a remote one by its \<^verbatim>\<open>gs://\<close> prefix). For every
  configuration with both set, \<^verbatim>\<open>getTransactionTimeStore\<close> returns the configuration
  error of line 307 without any call, and the run fails having done nothing but construct
  and close the client, so that no export job is started. The error of the run is the
  error of the flag checks of lines 109 to 126 when one of them fails, else the error of
  the construction of the client when that fails, and else the configuration error of
  line 307: it need not be that configuration error.
\<close>

theorem C9_one_checkpoint_source:
  assumes both: "since cfg \<noteq> []" "sinceFile cfg \<noteq> []"
  shows "getTransactionTimeStore env cfg s =
           (Inl (New ''only one of since or since_file flags may be set (cannot set both)''), s) \<and>
         fst (mainWrapper env cfg (init w)) =
           Return (Some
             (case mainWrapper_flags cfg of
                Some e \<Rightarrow> e
              | None \<Rightarrow>
                  (case fst (getBulkFHIRClient env cfg (init w)) of
                     Some e \<Rightarrow> Errorf ''Error making bulkfhir client: '' e
                   | None \<Rightarrow>
                       New ''only one of since or since_file flags may be set (cannot set both)''))) \<and>
         list_all client_event (trace (snd (mainWrapper env cfg (init w)))) \<and>
         (\<forall>t r. EvStartBulkDataExport t r \<notin> set (trace (snd (mainWrapper env cfg (init w)))))"
proof -
  have st: "\<And>s. getTransactionTimeStore env cfg s =
           (Inl (New ''only one of since or since_file flags may be set (cannot set both)''), s)"
    using both by (simp add: getTransactionTimeStore_def)
  obtain c s1 where c: "getBulkFHIRClient env cfg (init w) = (c, s1)"
    by (cases "getBulkFHIRClient env cfg (init w)")
  from getBulkFHIRClient_client [OF c] obtain evs where evs: "trace s1 = evs"
    "deferred s1 = []" "list_all client_event evs" by (auto simp: init_def)
  have no: "EvStartBulkDataExport t r \<notin> set tr" if "list_all client_event tr" for t r tr
    using that by (auto simp: list_all_iff)
  have "fst (mainWrapper env cfg (init w)) =
           Return (Some
             (case mainWrapper_flags cfg of
                Some e \<Rightarrow> e
              | None \<Rightarrow>
                  (case fst (getBulkFHIRClient env cfg (init w)) of
                     Some e \<Rightarrow> Errorf ''Error making bulkfhir client: '' e
                   | None \<Rightarrow>
                       New ''only one of since or since_file flags may be set (cannot set both)''))) \<and>
         list_all client_event (trace (snd (mainWrapper env cfg (init w))))"
  proof (cases "mainWrapper_flags cfg")
    case (Some e)
    then show ?thesis
      by (simp add: mainWrapper_def mainWrapper_body_def init_def)
  next
    case None
    show ?thesis
    proof (cases c)
      case (Some e)
      with None c evs st show ?thesis
        by (simp add: mainWrapper_def mainWrapper_body_def)
    next
      case cn: None
      with None c evs st show ?thesis
        by (simp add: mainWrapper_def mainWrapper_body_def defer_call_def call_eq)
    qed
  qed
  with st no show ?thesis by blast
qed

theorem C9_one_checkpoint_source_witness:
  "since (config ''id'' ''secret'' ''2021-05-01T00:00:00.000+00:00'' ''since.txt'') \<noteq> [] \<and>
   sinceFile (config ''id'' ''secret'' ''2021-05-01T00:00:00.000+00:00'' ''since.txt'') \<noteq> [] \<and>
   mainWrapper_flags (config ''id'' ''secret'' ''2021-05-01T00:00:00.000+00:00'' ''since.txt'') = None \<and>
   fst (mainWrapper (scripted (\<lambda>_. Inr smallBody) None
          [jobStatus True [(''Patient'', [''u1''])]] (\<lambda>_. None))
          (config ''id'' ''secret'' ''2021-05-01T00:00:00.000+00:00'' ''since.txt'') (init 0)) =
     Return (Some (New ''only one of since or since_file flags may be set (cannot set both)'')) \<and>
   trace (snd (mainWrapper (scripted (\<lambda>_. Inr smallBody) None
          [jobStatus True [(''Patient'', [''u1''])]] (\<lambda>_. None))
          (config ''id'' ''secret'' ''2021-05-01T00:00:00.000+00:00'' ''since.txt'') (init 0))) =
     [EvNewClient None, EvClose None]"
  using C9_one_checkpoint_source [of "config ''id'' ''secret'' ''2021-05-01T00:00:00.000+00:00''
      ''since.txt''" "scripted (\<lambda>_. Inr smallBody) None
          [jobStatus True [(''Patient'', [''u1''])]] (\<lambda>_. None)" "init 0" 0]
  by (simp add: eval_simps)

theorem C9_one_checkpoint_source_counterexample:
  "since (config ''id'' ''secret'' ''2021-05-01T00:00:00.000+00:00'' ''since.txt'') \<noteq> [] \<and>
   sinceFile (config ''id'' ''secret'' ''2021-05-01T00:00:00.000+00:00'' ''since.txt'') \<noteq> [] \<and>
   fst (mainWrapper ((scripted (\<lambda>_. Inr smallBody) None
          [jobStatus True [(''Patient'', [''u1''])]] (\<lambda>_. None))
          \<lparr>bcda_NewClient := \<lambda>_ _ _ w. (Some (New ''no client''), w)\<rparr>)
          (config ''id'' ''secret'' ''2021-05-01T00:00:00.000+00:00'' ''since.txt'') (init 0)) =
     Return (Some (Errorf ''Error making bulkfhir client: '' (New ''no client''))) \<and>
   Errorf ''Error making bulkfhir client: '' (New ''no client'') \<noteq>
     New ''only one of since or since_file flags may be set (cannot set both)'' \<and>
   trace (snd (mainWrapper ((scripted (\<lambda>_. Inr smallBody) None
          [jobStatus True [(''Patient'', [''u1''])]] (\<lambda>_. None))
          \<lparr>bcda_NewClient := \<lambda>_ _ _ w. (Some (New ''no client''), w)\<rparr>)
          (config ''id'' ''secret'' ''2021-05-01T00:00:00.000+00:00'' ''since.txt'') (init 0))) =
     [EvNewClient (Some (New ''no client''))]"
  by (simp add: eval_simps)

subsection \<open>A failing re-authentication\<close>

text \<open>
  C10. If a re-authentication of a fetch returns an error, the fetch returns that error
  wrapped as an authentication error: the error of the re-authentication, not that of
  the download. The failed re-authentication is the last event of the fetch, so that no
  further download or retry is made, and it came after at least one and at most five
  downloads, all of them retryable failures, and after successful re-authentications
  only: retries remained.
\<close>

theorem C10_reauthentication_failure:
  assumes run: "getDataOrExit env url cid cs s = (res, s')" and tr: "trace s' = trace s @ evs"
    and fail: "EvAuthenticate (Some a) \<in> set evs"
  shows "res = Inl (Wrapf ''Error authenticating with API: '' a) \<and>
         errorsIs (Wrapf ''Error authenticating with API: '' a) a \<and>
         (\<exists>pre. evs = pre @ [EvSleep 2, EvAuthenticate (Some a)] \<and>
            list_all (\<lambda>r. r = None) (authResults pre) \<and>
            list_all retryable (getDataResults pre) \<and>
            0 < length (getDataResults pre) \<and> length (getDataResults pre) \<le> 5)"
proof -
  from fetch_events_unique [OF run tr] obtain r0 rs where
    rs: "list_all retryable (butlast (r0 # rs))" "length rs \<le> maxRetries" and
    c: "case res of
           Inr rd \<Rightarrow> evs = EvGetData url r0 # concat (map (retry_events url) rs) \<and>
                     last (r0 # rs) = Inr rd
         | Inl e \<Rightarrow>
             (\<exists>e0. evs = EvGetData url r0 # concat (map (retry_events url) rs) \<and>
                   last (r0 # rs) = Inl e0 \<and>
                   e = Wrapf (''Unable to GetData('' @ url @ '') '') e0 \<and>
                   (retryable (Inl e0) \<longrightarrow> length rs = maxRetries)) \<or>
             (\<exists>a. evs = EvGetData url r0 # concat (map (retry_events url) rs) @
                               [EvSleep 2, EvAuthenticate (Some a)] \<and>
                   e = Wrapf ''Error authenticating with API: '' a \<and>
                   retryable (last (r0 # rs)) \<and> length rs < maxRetries)"
    unfolding fetch_exact_def by blast
  have no: "evs \<noteq> EvGetData url r0 # concat (map (retry_events url) rs)"
    using fail retries_auth_ok [of a url rs] by auto
  with c obtain e a' where e: "res = Inl e"
    "evs = EvGetData url r0 # concat (map (retry_events url) rs) @
             [EvSleep 2, EvAuthenticate (Some a')]"
    "e = Wrapf ''Error authenticating with API: '' a'" "retryable (last (r0 # rs))"
    "length rs < maxRetries"
    by (cases res) auto
  have "a' = a" using fail retries_auth_ok [of a url rs] by (auto simp: e(2))
  define pre where "pre = EvGetData url r0 # concat (map (retry_events url) rs)"
  have p: "evs = pre @ [EvSleep 2, EvAuthenticate (Some a)]"
    by (simp add: pre_def e(2) \<open>a' = a\<close>)
  have g: "getDataResults pre = r0 # rs"
    by (simp add: pre_def getDataResults_retries)
  have au: "authResults pre = replicate (length rs) None"
    by (simp add: pre_def authResults_retries)
  have ra: "list_all retryable (r0 # rs)"
    by (rule list_all_butlast_last [OF _ rs(1) e(4)]) simp
  have "list_all (\<lambda>r. r = None) (authResults pre)"
    by (simp add: au list_all_iff)
  with p g ra e(5) have "\<exists>pre. evs = pre @ [EvSleep 2, EvAuthenticate (Some a)] \<and>
            list_all (\<lambda>r. r = None) (authResults pre) \<and>
            list_all retryable (getDataResults pre) \<and>
            0 < length (getDataResults pre) \<and> length (getDataResults pre) \<le> 5"
    by (intro exI [of _ pre]) (simp add: maxRetries_def)
  then show ?thesis using e(1,3) \<open>a' = a\<close> by (simp add: errorsIs_refl)
qed

theorem C10_reauthentication_failure_witness:
  "EvAuthenticate (Some (New ''auth down'')) \<in> set (trace (snd (getDataOrExit
      (scripted (\<lambda>_. Inl ErrorUnauthorized) (Some (New ''auth down'')) [] (\<lambda>_. None))
      ''u'' ''id'' ''secret'' (init 0)))) \<and>
   fst (getDataOrExit
      (scripted (\<lambda>_. Inl ErrorUnauthorized) (Some (New ''auth down'')) [] (\<lambda>_. None))
      ''u'' ''id'' ''secret'' (init 0)) =
     Inl (Wrapf ''Error authenticating with API: '' (New ''auth down'')) \<and>
   getDataResults (trace (snd (getDataOrExit
      (scripted (\<lambda>_. Inl ErrorUnauthorized) (Some (New ''auth down'')) [] (\<lambda>_. None))
      ''u'' ''id'' ''secret'' (init 0)))) = [Inl ErrorUnauthorized]"
  using C10_reauthentication_failure [OF fetch_auth_down, of
      "[EvGetData ''u'' (Inl ErrorUnauthorized), EvSleep 2,
              EvAuthenticate (Some (New ''auth down''))]" "New ''auth down''"]
  by (simp add: fetch_auth_down trace_init retryable_def)

end
